theory Spec2Isabelle
  imports Main "HOL-Library.Word"
begin

section \<open>The slab pool of go-generic-object-store (\<^verbatim>\<open>slab_pool.go\<close>)\<close>

text \<open>
  A slab pool owns a list of slabs that is kept sorted by descending base address.
  The pool's methods are embedded as HOL functions that take the pool and return the
  changed pool next to the Go return values. A \<^verbatim>\<open>*slab\<close> is the base address of the
  mapped region; in the embedding the pool's list holds the slab values themselves and a
  pointer into the list is the position it is stored at. The answers of the operating
  system (\<^verbatim>\<open>mmap\<close>, \<^verbatim>\<open>munmap\<close>) are arguments.
\<close>

subsection \<open>Values\<close>

type_synonym byte = "8 word"

text \<open>\<^verbatim>\<open>uintptr\<close>, \<^verbatim>\<open>ObjAddr\<close> and \<^verbatim>\<open>SlabAddr\<close> on a 64-bit target.\<close>

type_synonym uintptr = "64 word"

type_synonym errno = nat

text \<open>
  A Go \<^verbatim>\<open>error\<close> value: an error number handed up from a system call, or a message
  built by \<^verbatim>\<open>fmt.Errorf\<close>.
\<close>

datatype error = Errno errno | Errorf string

text \<open>A run-time panic; the only one the pool can raise is an index out of range.\<close>

datatype panic = IndexOutOfRange

subsection \<open>The slab\<close>

text \<open>
  The slab type lives in a file of the repository that is not part of the sources at
  hand. Its state is the base address, the two sizes it was created with, the length of
  the bookkeeping area in front of slot 0, the occupancy bitmap and the bytes of the
  object area (read by byte offset from slot 0).
\<close>

record slab =
  base :: uintptr
  slabObjSize :: "8 word"
  slabObjsPerSlab :: "64 word"
  dataOff :: uintptr
  bits :: "nat \<Rightarrow> bool"
  mem :: "nat \<Rightarrow> byte"

text \<open>
  The zero value \<^verbatim>\<open>slab{}\<close> behind the placeholder pointer \<^verbatim>\<open>&slab{}\<close>. The
  placeholder is overwritten (in \<^verbatim>\<open>addSlab\<close>) or cut off (in \<^verbatim>\<open>deleteSlab\<close>) before
  anything reads it, see \<open>insert_by_copy\<close> and \<open>remove_by_copy\<close> below.
\<close>

definition zeroSlab :: slab where
  "zeroSlab = \<lparr>base = 0, slabObjSize = 0, slabObjsPerSlab = 0, dataOff = 0,
               bits = (\<lambda>_. False), mem = (\<lambda>_. 0)\<rparr>"

text \<open>
  Modelled from the spec: \<^verbatim>\<open>addr()\<close>, missing from the sources, is "the Slab's stable
  base address, used as sort/identity key".
\<close>

definition addr :: "slab \<Rightarrow> uintptr" where
  "addr s = base s"

text \<open>
  Modelled from the spec: the address of a slot, missing from the sources. The object
  storage follows the header and bitmap overhead; slot \<open>i\<close> starts \<open>i\<close> object sizes
  into it.
\<close>

definition slotAddr :: "slab \<Rightarrow> nat \<Rightarrow> uintptr" where
  "slotAddr s i = base s + dataOff s + of_nat (i * unat (slabObjSize s))"

text \<open>
  Modelled from the spec: \<^verbatim>\<open>getTotalLength()\<close>, missing from the sources: "total
  mapped length = header/bitmap overhead + capacity \<times> object size".
\<close>

definition getTotalLength :: "slab \<Rightarrow> nat" where
  "getTotalLength s = unat (dataOff s) + unat (slabObjsPerSlab s) * unat (slabObjSize s)"

text \<open>
  Modelled from the spec: \<^verbatim>\<open>bitSet().Test(i)\<close>, missing from the sources: one
  occupancy bit per slot, set when the slot is occupied.
\<close>

definition bitTest :: "slab \<Rightarrow> nat \<Rightarrow> bool" where
  "bitTest s i = (i < unat (slabObjsPerSlab s) \<and> bits s i)"

text \<open>
  Modelled from the spec: \<^verbatim>\<open>getObjByIdx(i)\<close>, missing from the sources: "a zero-copy
  view of slot \<open>i\<close>'s byte range regardless of occupancy bit"; the view is as long as the
  slab's object size.
\<close>

definition getObjByIdx :: "slab \<Rightarrow> nat \<Rightarrow> byte list" where
  "getObjByIdx s i =
     map (\<lambda>k. mem s (i * unat (slabObjSize s) + k)) [0..<unat (slabObjSize s)]"

text \<open>
  Go's \<^verbatim>\<open>copy\<close> of \<open>obj\<close> into the byte range of slot \<open>i\<close>: it copies as many bytes as
  the shorter of the two holds.
\<close>

definition writeSlot :: "slab \<Rightarrow> nat \<Rightarrow> byte list \<Rightarrow> nat \<Rightarrow> byte" where
  "writeSlot s i obj =
     (let n = unat (slabObjSize s) in
      (\<lambda>k. if i * n \<le> k \<and> k < i * n + min (length obj) n then obj ! (k - i * n)
            else mem s k))"

text \<open>
  Modelled from the spec: \<^verbatim>\<open>addObj\<close>, missing from the sources: it "scans slots for
  the first unset bitmap bit; if found, copies \<open>bytes\<close> into that slot's byte range, sets
  the bit, and returns the slot's address and success=true. If no free slot exists,
  returns success=false with no mutation"; the lowest slot index wins.
\<close>

definition addObj :: "slab \<Rightarrow> byte list \<Rightarrow> (uintptr \<times> bool) \<times> slab" where
  "addObj s obj =
     (case find (\<lambda>i. \<not> bits s i) [0..<unat (slabObjsPerSlab s)] of
        None \<Rightarrow> ((0, False), s)
      | Some i \<Rightarrow> ((slotAddr s i, True),
                   s\<lparr>bits := (bits s)(i := True), mem := writeSlot s i obj\<rparr>))"

text \<open>
  Modelled from the spec: \<^verbatim>\<open>newSlab\<close>, missing from the sources: it "maps a new
  zero-initialized region sized for the pool's object size \<times> capacity plus bookkeeping
  overhead, obtains its base address"; a failed mapping is handed up as the error.
  \<open>hdr\<close> is the length of the bookkeeping overhead and \<open>mm\<close> the answer of the mapping
  call: an error number or the base address of the fresh region.
\<close>

definition newSlab :: "uintptr \<Rightarrow> errno + uintptr \<Rightarrow> 8 word \<Rightarrow> 64 word \<Rightarrow> error + slab" where
  "newSlab hdr mm osz n =
     (case mm of
        Inl e \<Rightarrow> Inl (Errno e)
      | Inr a \<Rightarrow> Inr \<lparr>base = a, slabObjSize = osz, slabObjsPerSlab = n, dataOff = hdr,
                     bits = (\<lambda>_. False), mem = (\<lambda>_. 0)\<rparr>)"

subsection \<open>The pool\<close>

record slabPool =
  slabs :: "slab list"
  objSize :: "8 word"
  objsPerSlab :: "64 word"

definition NewSlabPool :: "8 word \<Rightarrow> 64 word \<Rightarrow> slabPool" where
  "NewSlabPool osz n = \<lparr>slabs = [], objSize = osz, objsPerSlab = n\<rparr>"

subsection \<open>Library code the pool calls\<close>

text \<open>
  Go's \<^verbatim>\<open>sort.Search(n, f)\<close>: the binary search of the standard library,
  \<^verbatim>\<open>i, j := 0, n; for i < j { h := int(uint(i+j) >> 1); if !f(h) { i = h + 1 } else { j = h } }; return i\<close>.
  Slice lengths are far below the range of \<^verbatim>\<open>int\<close>, so the indices are naturals.
\<close>

function searchLoop :: "(nat \<Rightarrow> bool) \<Rightarrow> nat \<Rightarrow> nat \<Rightarrow> nat" where
  "searchLoop f i j =
     (if i < j then
        (let h = (i + j) div 2 in
         if \<not> f h then searchLoop f (h + 1) j else searchLoop f i h)
      else i)"
  by pat_completeness auto
termination
  by (relation "measure (\<lambda>(f, i, j). j - i)") auto

declare searchLoop.simps [simp del]

definition sort_Search :: "nat \<Rightarrow> (nat \<Rightarrow> bool) \<Rightarrow> nat" where
  "sort_Search n f = searchLoop f 0 n"

text \<open>
  Go's \<^verbatim>\<open>copy(xs[d:], xs[s:])\<close> on one slice: the elements from \<open>s\<close> on are moved to
  \<open>d\<close> on, as many as both ranges hold, and the source is read before it is written.
  Both callers keep \<open>d\<close> and \<open>s\<close> within the length, so neither slice expression can fail.
\<close>

definition copyWithin :: "'a list \<Rightarrow> nat \<Rightarrow> nat \<Rightarrow> 'a list" where
  "copyWithin xs d s =
     (let n = min (length xs - d) (length xs - s) in
      take d xs @ take n (drop s xs) @ drop (d + n) xs)"

subsection \<open>findSlabByAddr, addSlab, add\<close>

definition findSlabByAddr :: "slabPool \<Rightarrow> uintptr \<Rightarrow> nat" where
  "findSlabByAddr p obj = sort_Search (length (slabs p)) (\<lambda>i. addr (slabs p ! i) \<le> obj)"

text \<open>
  \<^verbatim>\<open>addSlab\<close> returns the pointer to the new slab or the error. The pointer is the
  position \<open>insertAt\<close> the new slab is stored at.
\<close>

definition addSlab :: "uintptr \<Rightarrow> errno + uintptr \<Rightarrow> slabPool \<Rightarrow> (error + nat) \<times> slabPool" where
  "addSlab hdr mm p =
     (case newSlab hdr mm (objSize p) (objsPerSlab p) of
        Inl err \<Rightarrow> (Inl err, p)
      | Inr addedSlab \<Rightarrow>
          (let newSlabAddr = addr addedSlab;
               insertAt = sort_Search (length (slabs p)) (\<lambda>i. addr (slabs p ! i) < newSlabAddr);
               s1 = slabs p @ [zeroSlab];
               s2 = copyWithin s1 (insertAt + 1) insertAt;
               s3 = s2[insertAt := addedSlab]
           in (Inr insertAt, p\<lparr>slabs := s3\<rparr>)))"

text \<open>
  The loop of \<^verbatim>\<open>add\<close> over the slabs: \<^verbatim>\<open>addObj\<close> on each in turn until one reports
  success. The result is the object address of the first success, if any, and the slabs
  as the calls left them.
\<close>

fun addLoop :: "slab list \<Rightarrow> byte list \<Rightarrow> uintptr option \<times> slab list" where
  "addLoop [] obj = (None, [])"
| "addLoop (currentSlab # rest) obj =
     (case addObj currentSlab obj of
        ((objAddr, success), s') \<Rightarrow>
          if success then (Some objAddr, s' # rest)
          else (case addLoop rest obj of (r, rest') \<Rightarrow> (r, s' # rest')))"

definition add ::
  "uintptr \<Rightarrow> errno + uintptr \<Rightarrow> slabPool \<Rightarrow> byte list \<Rightarrow>
     (uintptr \<times> uintptr \<times> error option) \<times> slabPool" where
  "add hdr mm p obj =
     (case addLoop (slabs p) obj of
        (Some objAddr, ss) \<Rightarrow> ((objAddr, 0, None), p\<lparr>slabs := ss\<rparr>)
      | (None, ss) \<Rightarrow>
          (case addSlab hdr mm (p\<lparr>slabs := ss\<rparr>) of
             (Inl err, p') \<Rightarrow> ((0, 0, Some err), p')
           | (Inr k, p') \<Rightarrow>
               (case addObj (slabs p' ! k) obj of
                  ((objAddr, success), s') \<Rightarrow>
                    if \<not> success then
                      ((0, 0, Some (Errorf ''Add: Failed adding object to new slab'')),
                       p'\<lparr>slabs := (slabs p')[k := s']\<rparr>)
                    else ((objAddr, addr s', None), p'\<lparr>slabs := (slabs p')[k := s']\<rparr>))))"

subsection \<open>deleteSlab\<close>

text \<open>
  \<open>munmap a n\<close> is the answer of \<^verbatim>\<open>syscall.Munmap\<close> for the \<open>n\<close> bytes at \<open>a\<close>: an
  error number, or \<open>None\<close> for success. Indexing the slab list at \<open>slabIdx\<close> panics when
  the index is not below the length; then the call does not return.
\<close>

definition deleteSlab ::
  "(uintptr \<Rightarrow> nat \<Rightarrow> errno option) \<Rightarrow> slabPool \<Rightarrow> uintptr \<Rightarrow>
     panic + (error option \<times> slabPool)" where
  "deleteSlab munmap p slabAddr =
     (let slabIdx = findSlabByAddr p slabAddr in
      if length (slabs p) \<le> slabIdx then Inl IndexOutOfRange
      else
        (let currentSlab = slabs p ! slabIdx;
             s1 = copyWithin (slabs p) slabIdx (slabIdx + 1);
             s2 = s1[length s1 - 1 := zeroSlab];
             s3 = take (length s2 - 1) s2;
             p' = p\<lparr>slabs := s3\<rparr>;
             totalLen = getTotalLength currentSlab
         in (case munmap (addr currentSlab) totalLen of
               Some e \<Rightarrow> Inr (Some (Errno e), p')
             | None \<Rightarrow> Inr (None, p'))))"

subsection \<open>search\<close>

text \<open>
  The byte comparison loop of \<^verbatim>\<open>search\<close> and \<^verbatim>\<open>searchBatched\<close>,
  \<^verbatim>\<open>for j := 0; j < objSize; j++ { if obj[j] != searching[j] { continue OBJECT } }\<close>,
  run over the indices \<open>js\<close>: \<open>Inr True\<close> when it runs through, \<open>Inr False\<close> when it
  leaves by \<^verbatim>\<open>continue\<close>, and the panic when an index is outside one of the slices.
\<close>

fun cmpLoop :: "byte list \<Rightarrow> byte list \<Rightarrow> nat list \<Rightarrow> panic + bool" where
  "cmpLoop obj searching [] = Inr True"
| "cmpLoop obj searching (j # js) =
     (if length obj \<le> j \<or> length searching \<le> j then Inl IndexOutOfRange
      else if obj ! j \<noteq> searching ! j then Inr False
      else cmpLoop obj searching js)"

text \<open>
  The loop \<^verbatim>\<open>OBJECT\<close> over the slots \<open>is\<close> of one slab. \<^verbatim>\<open>&obj[0]\<close> is the address
  of the slot, and indexes the view at 0.
\<close>

fun searchSlab :: "slabPool \<Rightarrow> slab \<Rightarrow> byte list \<Rightarrow> nat list \<Rightarrow> panic + uintptr option" where
  "searchSlab p currentSlab searching [] = Inr None"
| "searchSlab p currentSlab searching (i # is) =
     (if bitTest currentSlab i then
        (let obj = getObjByIdx currentSlab i in
         case cmpLoop obj searching [0..<unat (objSize p)] of
           Inl e \<Rightarrow> Inl e
         | Inr False \<Rightarrow> searchSlab p currentSlab searching is
         | Inr True \<Rightarrow>
             if length obj \<le> 0 then Inl IndexOutOfRange
             else Inr (Some (slotAddr currentSlab i)))
      else searchSlab p currentSlab searching is)"

fun searchSlabs :: "slabPool \<Rightarrow> slab list \<Rightarrow> byte list \<Rightarrow> panic + (uintptr \<times> bool)" where
  "searchSlabs p [] searching = Inr (0, False)"
| "searchSlabs p (currentSlab # rest) searching =
     (case searchSlab p currentSlab searching [0..<unat (objsPerSlab p)] of
        Inl e \<Rightarrow> Inl e
      | Inr (Some a) \<Rightarrow> Inr (a, True)
      | Inr None \<Rightarrow> searchSlabs p rest searching)"

definition search :: "slabPool \<Rightarrow> byte list \<Rightarrow> panic + (uintptr \<times> bool)" where
  "search p searching =
     (if length searching \<noteq> unat (objSize p) then Inr (0, False)
      else searchSlabs p (slabs p) searching)"

subsection \<open>searchBatched\<close>

text \<open>
  Modelled from the spec: \<^verbatim>\<open>objAddrFromObj\<close>, missing from the sources, applied to
  the view of slot \<open>j\<close>: an object's address is "the raw memory address of one stored
  object's first byte".
\<close>

definition objAddrFromObj :: "slab \<Rightarrow> nat \<Rightarrow> uintptr" where
  "objAddrFromObj s j = slotAddr s j"

text \<open>
  The loop \<^verbatim>\<open>SEARCH\<close> of one goroutine: the stored object (its view and its address)
  against the searched objects from index \<open>k\<close> on. The value is the list of results the
  goroutine sends, in the order it sends them. A panic in a goroutine ends the process.
\<close>

fun matchTargets ::
  "nat \<Rightarrow> byte list \<Rightarrow> uintptr \<Rightarrow> nat \<Rightarrow> byte list list \<Rightarrow> panic + (nat \<times> uintptr) list" where
  "matchTargets n storedObj a k [] = Inr []"
| "matchTargets n storedObj a k (searchedObj # rest) =
     (case cmpLoop storedObj searchedObj [0..<n] of
        Inl e \<Rightarrow> Inl e
      | Inr False \<Rightarrow> matchTargets n storedObj a (k + 1) rest
      | Inr True \<Rightarrow>
          (case matchTargets n storedObj a (k + 1) rest of
             Inl e \<Rightarrow> Inl e
           | Inr rs \<Rightarrow> Inr ((k, a) # rs)))"

text \<open>The goroutine of one slab, over the slots \<open>js\<close>.\<close>

fun slabTask ::
  "slabPool \<Rightarrow> byte list list \<Rightarrow> slab \<Rightarrow> nat list \<Rightarrow> panic + (nat \<times> uintptr) list" where
  "slabTask p searching currentSlab [] = Inr []"
| "slabTask p searching currentSlab (j # js) =
     (if bitTest currentSlab j then
        (case matchTargets (unat (objSize p)) (getObjByIdx currentSlab j)
                (objAddrFromObj currentSlab j) 0 searching of
           Inl e \<Rightarrow> Inl e
         | Inr rs \<Rightarrow>
             (case slabTask p searching currentSlab js of
                Inl e \<Rightarrow> Inl e
              | Inr rs' \<Rightarrow> Inr (rs @ rs')))
      else slabTask p searching currentSlab js)"

text \<open>All goroutines: the panic of the first that panics, or what each one sends.\<close>

fun slabTasks ::
  "slabPool \<Rightarrow> byte list list \<Rightarrow> slab list \<Rightarrow> panic + (nat \<times> uintptr) list list" where
  "slabTasks p searching [] = Inr []"
| "slabTasks p searching (s # ss) =
     (case slabTask p searching s [0..<unat (objsPerSlab p)] of
        Inl e \<Rightarrow> Inl e
      | Inr q \<Rightarrow>
          (case slabTasks p searching ss of
             Inl e \<Rightarrow> Inl e
           | Inr qs \<Rightarrow> Inr (q # qs)))"

text \<open>
  The collector, \<^verbatim>\<open>for res := range resChan { resultSet[res.idx] = res.addr }\<close>.
  The channel is unbuffered, so the order the results arrive in is an interleaving of
  what the goroutines send. A schedule names, for every receive, the goroutine whose next
  result is taken. \<open>None\<close>: the schedule is not a run of the program (it takes from a
  goroutine that has nothing left to send, or stops before every result is received).
\<close>

fun collect ::
  "nat list \<Rightarrow> (nat \<times> uintptr) list list \<Rightarrow> uintptr list \<Rightarrow> uintptr list option" where
  "collect [] qs resultSet = (if list_all (\<lambda>q. q = []) qs then Some resultSet else None)"
| "collect (g # sched) qs resultSet =
     (if g < length qs then
        (case qs ! g of
           [] \<Rightarrow> None
         | res # q \<Rightarrow> collect sched (qs[g := q]) (resultSet[fst res := snd res]))
      else None)"

definition searchBatched ::
  "nat list \<Rightarrow> slabPool \<Rightarrow> byte list list \<Rightarrow> panic + uintptr list option" where
  "searchBatched sched p searching =
     (case slabTasks p searching (slabs p) of
        Inl e \<Rightarrow> Inl e
      | Inr qs \<Rightarrow> Inr (collect sched qs (replicate (length searching) 0)))"

subsection \<open>The sorting invariant\<close>

definition sorted_desc :: "slab list \<Rightarrow> bool" where
  "sorted_desc xs = sorted_wrt (\<lambda>a b. b < a) (map addr xs)"

text \<open>
  The region of a slab is the \<open>getTotalLength\<close> bytes from its base address on; a slab
  owns the addresses in its region.
\<close>

definition owns :: "slab \<Rightarrow> uintptr \<Rightarrow> bool" where
  "owns s a = (addr s \<le> a \<and> unat a < unat (addr s) + getTotalLength s)"

subsection \<open>Concrete pools and system answers\<close>

text \<open>A release that succeeds, and one that fails with \<^verbatim>\<open>EINVAL\<close>.\<close>

definition munmap_ok :: "uintptr \<Rightarrow> nat \<Rightarrow> errno option" where
  "munmap_ok a n = None"

definition munmap_fail :: "uintptr \<Rightarrow> nat \<Rightarrow> errno option" where
  "munmap_fail a n = Some 22"

text \<open>
  A pool of two-byte objects, one object per slab, after one \<^verbatim>\<open>add\<close> (one full slab
  at 4096) and after three (slabs mapped at 4096, 12288 and 8192, in this order).
\<close>

definition ex_pool1 :: slabPool where
  "ex_pool1 = snd (add 16 (Inr 4096) (NewSlabPool 2 1) [1, 2])"

definition ex_pool3 :: slabPool where
  "ex_pool3 = snd (add 16 (Inr 8192) (snd (add 16 (Inr 12288) ex_pool1 [3, 4])) [5, 6])"

subsection \<open>The new slab and its position\<close>

text \<open>
  The slab \<open>newSlab\<close> makes for a pool when the mapping call answers with the address
  \<open>a\<close>, and the position \<open>addSlab\<close> computes for a slab with this address.
\<close>

definition freshSlab :: "uintptr \<Rightarrow> uintptr \<Rightarrow> slabPool \<Rightarrow> slab" where
  "freshSlab hdr a p =
     \<lparr>base = a, slabObjSize = objSize p, slabObjsPerSlab = objsPerSlab p, dataOff = hdr,
      bits = (\<lambda>_. False), mem = (\<lambda>_. 0)\<rparr>"

definition insertPos :: "slab list \<Rightarrow> uintptr \<Rightarrow> nat" where
  "insertPos xs a = sort_Search (length xs) (\<lambda>i. addr (xs ! i) < a)"

subsection \<open>What the specification says \<open>add\<close> does\<close>

text \<open>
  The first slab, in list order, whose \<open>addObj\<close> succeeds; and the insertion of a slab
  in front of the first slab with a smaller base address.
\<close>

definition firstFit :: "slab list \<Rightarrow> byte list \<Rightarrow> nat option" where
  "firstFit xs obj = find (\<lambda>i. snd (fst (addObj (xs ! i) obj))) [0..<length xs]"

definition insertSorted :: "slab \<Rightarrow> slab list \<Rightarrow> slab list" where
  "insertSorted n xs =
     takeWhile (\<lambda>s. addr n \<le> addr s) xs @ n # dropWhile (\<lambda>s. addr n \<le> addr s) xs"

text \<open>
  \<open>add\<close> in the specification's words: the object goes into the first slab that accepts
  it, and the call returns its address and 0. When no slab accepts it, a new slab is
  mapped (a failure is handed up), inserted in sorted position and given the object; the
  call returns the object's address and the new slab's address, or the error of a new
  slab that does not accept the object.
\<close>

definition add_spec ::
  "uintptr \<Rightarrow> errno + uintptr \<Rightarrow> slabPool \<Rightarrow> byte list \<Rightarrow>
     (uintptr \<times> uintptr \<times> error option) \<times> slabPool" where
  "add_spec hdr mm p obj =
     (case firstFit (slabs p) obj of
        Some i \<Rightarrow>
          ((fst (fst (addObj (slabs p ! i) obj)), 0, None),
           p\<lparr>slabs := (slabs p)[i := snd (addObj (slabs p ! i) obj)]\<rparr>)
      | None \<Rightarrow>
          (case mm of
             Inl e \<Rightarrow> ((0, 0, Some (Errno e)), p)
           | Inr a \<Rightarrow>
               (let r = addObj (freshSlab hdr a p) obj in
                ((if snd (fst r) then (fst (fst r), a, None)
                  else (0, 0, Some (Errorf ''Add: Failed adding object to new slab''))),
                 p\<lparr>slabs := insertSorted (snd r) (slabs p)\<rparr>))))"

subsection \<open>What the specification says \<open>search\<close> does\<close>

text \<open>
  Every slab of the pool gives views of the pool's object size: the slabs were made with
  the pool's sizes.
\<close>

definition slabs_sized :: "slabPool \<Rightarrow> bool" where
  "slabs_sized p = list_all (\<lambda>s. slabObjSize s = objSize p) (slabs p)"

text \<open>
  The addresses of the occupied slots whose content equals \<open>bytes\<close>, slab by slab in
  list order and by ascending slot index within a slab.
\<close>

definition slabMatches :: "slabPool \<Rightarrow> byte list \<Rightarrow> slab \<Rightarrow> nat list \<Rightarrow> uintptr list" where
  "slabMatches p bytes s is =
     map (slotAddr s) (filter (\<lambda>i. bitTest s i \<and> getObjByIdx s i = bytes) is)"

definition matches :: "slabPool \<Rightarrow> byte list \<Rightarrow> uintptr list" where
  "matches p bytes =
     concat (map (\<lambda>s. slabMatches p bytes s [0..<unat (objsPerSlab p)]) (slabs p))"

text \<open>
  \<open>search\<close> in the specification's words: not found when the length differs from the
  object size, else the first matching address, else not found.
\<close>

definition search_spec :: "slabPool \<Rightarrow> byte list \<Rightarrow> uintptr \<times> bool" where
  "search_spec p bytes =
     (if length bytes \<noteq> unat (objSize p) then (0, False)
      else (case matches p bytes of [] \<Rightarrow> (0, False) | a # _ \<Rightarrow> (a, True)))"

subsection \<open>Sequences of calls\<close>

text \<open>
  A sequence of \<open>add\<close> calls on one pool; every call comes with the answer the mapping
  call gives if the call maps a new slab.
\<close>

fun addAll ::
  "uintptr \<Rightarrow> slabPool \<Rightarrow> ((errno + uintptr) \<times> byte list) list \<Rightarrow>
     (uintptr \<times> uintptr \<times> error option) list \<times> slabPool" where
  "addAll hdr p [] = ([], p)"
| "addAll hdr p ((mm, obj) # calls) =
     (case add hdr mm p obj of
        (r, p') \<Rightarrow> (case addAll hdr p' calls of (rs, p'') \<Rightarrow> (r # rs, p'')))"

text \<open>The first \<open>k\<close> slots of a slab are occupied and the others are free.\<close>

definition filledTo :: "slab \<Rightarrow> nat \<Rightarrow> bool" where
  "filledTo s k = (\<forall>i<unat (slabObjsPerSlab s). bits s i = (i < k))"

section \<open>Binary search\<close>

lemma searchLoop_stop: "\<not> i < j \<Longrightarrow> searchLoop f i j = i"
  by (subst searchLoop.simps) simp

lemma searchLoop_right:
  "i < j \<Longrightarrow> \<not> f ((i + j) div 2) \<Longrightarrow> searchLoop f i j = searchLoop f ((i + j) div 2 + 1) j"
  by (subst searchLoop.simps) simp

lemma searchLoop_left:
  "i < j \<Longrightarrow> f ((i + j) div 2) \<Longrightarrow> searchLoop f i j = searchLoop f i ((i + j) div 2)"
  by (subst searchLoop.simps) simp

lemma searchLoop_bounds:
  "i \<le> j \<Longrightarrow> i \<le> searchLoop f i j \<and> searchLoop f i j \<le> j"
proof (induction f i j rule: searchLoop.induct)
  case (1 f i j)
  show ?case
  proof (cases "i < j")
    case False
    then show ?thesis using "1.prems" by (simp add: searchLoop_stop)
  next
    case True
    define h where "h = (i + j) div 2"
    have hb: "i \<le> h" "h < j" using True by (simp_all add: h_def)
    show ?thesis
    proof (cases "f h")
      case True
      have "searchLoop f i j = searchLoop f i h"
        using searchLoop_left [of i j f] \<open>i < j\<close> True by (simp add: h_def)
      moreover have "i \<le> searchLoop f i h \<and> searchLoop f i h \<le> h"
        using "1.IH"(2) [of h] \<open>i < j\<close> True hb by (simp add: h_def)
      ultimately show ?thesis using hb by simp
    next
      case False
      have "searchLoop f i j = searchLoop f (h + 1) j"
        using searchLoop_right [of i j f] \<open>i < j\<close> False by (simp add: h_def)
      moreover have "h + 1 \<le> searchLoop f (h + 1) j \<and> searchLoop f (h + 1) j \<le> j"
        using "1.IH"(1) [of h] \<open>i < j\<close> False hb by (simp add: h_def)
      ultimately show ?thesis using hb by simp
    qed
  qed
qed

lemma sort_Search_le: "sort_Search n f \<le> n"
  using searchLoop_bounds [of 0 n f] by (simp add: sort_Search_def)

text \<open>
  The loop keeps its result between the two bounds. When everything below \<open>i\<close> fails
  \<open>f\<close>, everything from \<open>j\<close> up to \<open>n\<close> satisfies it, and \<open>f\<close> stays true once it is
  true, the result splits the range below \<open>n\<close> the same way.
\<close>

lemma searchLoop_split:
  assumes mono: "\<And>a b. a \<le> b \<Longrightarrow> b < n \<Longrightarrow> f a \<Longrightarrow> f b"
  shows "i \<le> j \<Longrightarrow> j \<le> n \<Longrightarrow> (\<forall>k<i. \<not> f k) \<Longrightarrow> (\<forall>k. j \<le> k \<and> k < n \<longrightarrow> f k) \<Longrightarrow>
         i \<le> searchLoop f i j \<and> searchLoop f i j \<le> j \<and>
         (\<forall>k. k < searchLoop f i j \<longrightarrow> \<not> f k) \<and> (\<forall>k. searchLoop f i j \<le> k \<and> k < n \<longrightarrow> f k)"
  using mono
proof (induction f i j rule: searchLoop.induct)
  case (1 f i j)
  have mono': "\<And>a b. a \<le> b \<Longrightarrow> b < n \<Longrightarrow> f a \<Longrightarrow> f b" by (rule "1.prems"(5))
  show ?case
  proof (cases "i < j")
    case False
    then have "searchLoop f i j = i" by (rule searchLoop_stop)
    with "1.prems" False show ?thesis by simp
  next
    case True
    define h where "h = (i + j) div 2"
    have hb: "i \<le> h" "h < j" using True by (simp_all add: h_def)
    show ?thesis
    proof (cases "f h")
      case True
      have eq: "searchLoop f i j = searchLoop f i h"
        using searchLoop_left [of i j f] \<open>i < j\<close> True by (simp add: h_def)
      have up: "\<forall>k. h \<le> k \<and> k < n \<longrightarrow> f k"
        using mono' True by blast
      have "i \<le> searchLoop f i h \<and> searchLoop f i h \<le> h \<and>
            (\<forall>k. k < searchLoop f i h \<longrightarrow> \<not> f k) \<and> (\<forall>k. searchLoop f i h \<le> k \<and> k < n \<longrightarrow> f k)"
        using "1.IH"(2) [of h] \<open>i < j\<close> True hb "1.prems"(2,3) up mono'
        by (simp add: h_def)
      then show ?thesis using eq hb by auto
    next
      case False
      have eq: "searchLoop f i j = searchLoop f (h + 1) j"
        using searchLoop_right [of i j f] \<open>i < j\<close> False by (simp add: h_def)
      have low: "\<forall>k<h + 1. \<not> f k"
      proof (intro allI impI)
        fix k assume "k < h + 1"
        then have "k \<le> h" by simp
        show "\<not> f k"
        proof
          assume "f k"
          from mono' [OF \<open>k \<le> h\<close> _ this] hb "1.prems"(2) have "f h" by simp
          with False show False by simp
        qed
      qed
      have "h + 1 \<le> searchLoop f (h + 1) j \<and> searchLoop f (h + 1) j \<le> j \<and>
            (\<forall>k. k < searchLoop f (h + 1) j \<longrightarrow> \<not> f k) \<and>
            (\<forall>k. searchLoop f (h + 1) j \<le> k \<and> k < n \<longrightarrow> f k)"
        using "1.IH"(1) [of h] \<open>i < j\<close> False hb "1.prems"(2,4) low mono'
        by (simp add: h_def)
      then show ?thesis using eq hb by auto
    qed
  qed
qed

lemma sort_Search_split:
  assumes "\<And>a b. a \<le> b \<Longrightarrow> b < n \<Longrightarrow> f a \<Longrightarrow> f b"
  shows "(\<forall>k. k < sort_Search n f \<longrightarrow> \<not> f k) \<and> (\<forall>k. sort_Search n f \<le> k \<and> k < n \<longrightarrow> f k)"
proof -
  have "0 \<le> searchLoop f 0 n \<and> searchLoop f 0 n \<le> n \<and>
         (\<forall>k. k < searchLoop f 0 n \<longrightarrow> \<not> f k) \<and> (\<forall>k. searchLoop f 0 n \<le> k \<and> k < n \<longrightarrow> f k)"
    by (rule searchLoop_split [where n = n]) (use assms in auto)
  then show ?thesis unfolding sort_Search_def by blast
qed

lemma sort_Search_none:
  assumes a: "\<And>k. k < n \<Longrightarrow> \<not> f k"
  shows "sort_Search n f = n"
proof (rule ccontr)
  assume "sort_Search n f \<noteq> n"
  then have lt: "sort_Search n f < n" using sort_Search_le [of n f] by simp
  have "\<forall>k. sort_Search n f \<le> k \<and> k < n \<longrightarrow> f k"
    by (rule sort_Search_split [THEN conjunct2]) (use a in force)
  with lt have "f (sort_Search n f)" by blast
  with a [OF lt] show False by simp
qed

section \<open>Inserting and removing by copy\<close>

text \<open>
  Appending a placeholder, moving the tail up by one and storing at \<open>i\<close> inserts at
  \<open>i\<close>; moving the tail down by one, overwriting the last element and cutting it off
  removes the element at \<open>i\<close>. The placeholder does not show in either result.
\<close>

lemma insert_by_copy:
  assumes "i \<le> length xs"
  shows "(copyWithin (xs @ [z]) (i + 1) i)[i := x] = take i xs @ x # drop i xs"
proof -
  have t: "take (Suc i) (xs @ [z]) = take i xs @ [(xs @ [z]) ! i]"
    using assms take_Suc_conv_app_nth [of i "xs @ [z]"] by simp
  have d: "take (length xs - i) (drop i (xs @ [z])) = drop i xs"
    using assms by simp
  have m: "min (length (xs @ [z]) - (i + 1)) (length (xs @ [z]) - i) = length xs - i"
    by simp
  have e: "drop (i + 1 + (length xs - i)) (xs @ [z]) = []"
    using assms by simp
  have c: "copyWithin (xs @ [z]) (i + 1) i = (take i xs @ [(xs @ [z]) ! i]) @ drop i xs"
    unfolding copyWithin_def Let_def m d e using t by simp
  have "((take i xs @ [(xs @ [z]) ! i]) @ drop i xs)[i := x] = (take i xs @ [x]) @ drop i xs"
    using assms by (simp add: list_update_append)
  with c show ?thesis by simp
qed

lemma remove_by_copy:
  assumes "i < length xs"
  shows "take (length (copyWithin xs i (i + 1)) - 1)
           ((copyWithin xs i (i + 1))[length (copyWithin xs i (i + 1)) - 1 := z])
         = take i xs @ drop (Suc i) xs"
proof -
  define ys where "ys = take i xs @ drop (Suc i) xs"
  have m: "min (length xs - i) (length xs - (i + 1)) = length xs - Suc i"
    by simp
  have ly: "length ys = length xs - 1"
    using assms by (simp add: ys_def)
  have c: "copyWithin xs i (i + 1) = ys @ drop (length xs - 1) xs"
    using assms unfolding copyWithin_def Let_def m ys_def by simp
  define zs where "zs = drop (length xs - 1) xs"
  have "length zs = 1" using assms by (simp add: zs_def)
  then obtain w where "zs = [w]"
    by (cases zs) auto
  then have w: "drop (length xs - 1) xs = [w]" by (simp add: zs_def)
  have l: "length (copyWithin xs i (i + 1)) - 1 = length ys"
    unfolding c w by simp
  have "take (length ys) ((ys @ [w])[length ys := z]) = ys"
    by simp
  then show ?thesis unfolding l unfolding c w ys_def .
qed

section \<open>Looking a slab up by address\<close>

lemma sorted_desc_nth:
  "sorted_desc xs \<Longrightarrow> i < j \<Longrightarrow> j < length xs \<Longrightarrow> addr (xs ! j) < addr (xs ! i)"
  by (simp add: sorted_desc_def sorted_wrt_iff_nth_less)

lemma sorted_desc_nth_le:
  "sorted_desc xs \<Longrightarrow> i \<le> j \<Longrightarrow> j < length xs \<Longrightarrow> addr (xs ! j) \<le> addr (xs ! i)"
  using sorted_desc_nth [of xs i j] by (cases "i = j") auto

lemma findSlabByAddr_le: "findSlabByAddr p a \<le> length (slabs p)"
  by (simp add: findSlabByAddr_def sort_Search_le)

lemma findSlabByAddr_split:
  assumes "sorted_desc (slabs p)"
  shows "(\<forall>k. k < findSlabByAddr p a \<longrightarrow> \<not> addr (slabs p ! k) \<le> a) \<and>
         (\<forall>k. findSlabByAddr p a \<le> k \<and> k < length (slabs p) \<longrightarrow> addr (slabs p ! k) \<le> a)"
  unfolding findSlabByAddr_def
proof (rule sort_Search_split)
  fix i j
  assume "i \<le> j" "j < length (slabs p)" "addr (slabs p ! i) \<le> a"
  with sorted_desc_nth_le [OF assms, of i j] show "addr (slabs p ! j) \<le> a" by simp
qed

lemma findSlabByAddr_below:
  assumes "\<forall>s\<in>set (slabs p). a < addr s"
  shows "findSlabByAddr p a = length (slabs p)"
  unfolding findSlabByAddr_def
proof (rule sort_Search_none)
  fix k assume "k < length (slabs p)"
  then have "a < addr (slabs p ! k)" using assms by simp
  then show "\<not> addr (slabs p ! k) \<le> a" by simp
qed

lemma findSlabByAddr_own:
  assumes s: "sorted_desc (slabs p)" and i: "i < length (slabs p)"
  shows "findSlabByAddr p (addr (slabs p ! i)) = i"
proof -
  define r where "r = findSlabByAddr p (addr (slabs p ! i))"
  have sp: "(\<forall>k. k < r \<longrightarrow> \<not> addr (slabs p ! k) \<le> addr (slabs p ! i))"
       "(\<forall>k. r \<le> k \<and> k < length (slabs p) \<longrightarrow> addr (slabs p ! k) \<le> addr (slabs p ! i))"
    using findSlabByAddr_split [OF s, of "addr (slabs p ! i)"] by (simp_all add: r_def)
  have "\<not> i < r" using sp(1) by auto
  moreover have "\<not> r < i"
  proof
    assume "r < i"
    then have "addr (slabs p ! r) \<le> addr (slabs p ! i)" using sp(2) i by simp
    moreover have "addr (slabs p ! i) < addr (slabs p ! r)"
      using sorted_desc_nth [OF s \<open>r < i\<close> i] .
    ultimately show False by simp
  qed
  ultimately show ?thesis by (simp add: r_def)
qed

lemma deleteSlab_found:
  assumes "findSlabByAddr p a < length (slabs p)"
  shows "deleteSlab munmap p a =
           Inr (map_option Errno
                  (munmap (addr (slabs p ! findSlabByAddr p a))
                     (getTotalLength (slabs p ! findSlabByAddr p a))),
                p\<lparr>slabs := take (findSlabByAddr p a) (slabs p) @
                            drop (Suc (findSlabByAddr p a)) (slabs p)\<rparr>)"
  using assms remove_by_copy [OF assms, of zeroSlab]
  by (simp add: deleteSlab_def Let_def split: option.splits)

lemma deleteSlab_missing:
  assumes "length (slabs p) \<le> findSlabByAddr p a"
  shows "deleteSlab munmap p a = Inl IndexOutOfRange"
  using assms by (simp add: deleteSlab_def Let_def)

text \<open>
  C2. On a pool whose slabs are sorted by strictly descending base address,
  \<open>findSlabByAddr p a\<close> is the index of the slab with the greatest base address that is
  at most \<open>a\<close>; when no slab has a base address at most \<open>a\<close> (as on the empty pool) it
  is the length of the slab list.
\<close>

theorem findSlabByAddr_greatest:
  assumes "sorted_desc (slabs p)"
  shows "if \<exists>s\<in>set (slabs p). addr s \<le> a
         then findSlabByAddr p a < length (slabs p) \<and>
              addr (slabs p ! findSlabByAddr p a) \<le> a \<and>
              (\<forall>s\<in>set (slabs p). addr s \<le> a \<longrightarrow> addr s \<le> addr (slabs p ! findSlabByAddr p a))
         else findSlabByAddr p a = length (slabs p)"
proof (cases "\<exists>s\<in>set (slabs p). addr s \<le> a")
  case False
  then have "\<forall>s\<in>set (slabs p). a < addr s" by auto
  then show ?thesis using False findSlabByAddr_below by simp
next
  case True
  define r where "r = findSlabByAddr p a"
  have sp: "\<forall>k. k < r \<longrightarrow> \<not> addr (slabs p ! k) \<le> a"
      "\<forall>k. r \<le> k \<and> k < length (slabs p) \<longrightarrow> addr (slabs p ! k) \<le> a"
    using findSlabByAddr_split [OF assms, of a] by (simp_all add: r_def)
  from True obtain k where k: "k < length (slabs p)" "addr (slabs p ! k) \<le> a"
    by (auto simp: in_set_conv_nth)
  have "\<not> k < r" using sp(1) k(2) by auto
  then have rk: "r \<le> k" by simp
  then have rl: "r < length (slabs p)" using k(1) by simp
  have ra: "addr (slabs p ! r) \<le> a" using sp(2) rl by simp
  have "\<forall>s\<in>set (slabs p). addr s \<le> a \<longrightarrow> addr s \<le> addr (slabs p ! r)"
  proof (intro ballI impI)
    fix s assume "s \<in> set (slabs p)" "addr s \<le> a"
    then obtain m where m: "m < length (slabs p)" "slabs p ! m = s"
      by (auto simp: in_set_conv_nth)
    have "\<not> m < r" using sp(1) m(2) \<open>addr s \<le> a\<close> by auto
    then have "r \<le> m" by simp
    from sorted_desc_nth_le [OF assms this m(1)] m(2) show "addr s \<le> addr (slabs p ! r)"
      by simp
  qed
  with True rl ra show ?thesis by (simp add: r_def)
qed


theorem findSlabByAddr_greatest_witness:
  "sorted_desc (slabs ex_pool3) \<and>
   findSlabByAddr ex_pool3 9000 < length (slabs ex_pool3) \<and>
   addr (slabs ex_pool3 ! findSlabByAddr ex_pool3 9000) \<le> 9000 \<and>
   list_all (\<lambda>s. \<not> addr s \<le> 9000 \<or> addr s \<le> addr (slabs ex_pool3 ! findSlabByAddr ex_pool3 9000))
     (slabs ex_pool3)"
proof -
  have s: "sorted_desc (slabs ex_pool3)" by code_simp
  have e: "\<exists>s\<in>set (slabs ex_pool3). addr s \<le> 9000" by code_simp
  let ?r = "findSlabByAddr ex_pool3 9000"
  have "if \<exists>s\<in>set (slabs ex_pool3). addr s \<le> 9000
        then ?r < length (slabs ex_pool3) \<and> addr (slabs ex_pool3 ! ?r) \<le> 9000 \<and>
             (\<forall>s\<in>set (slabs ex_pool3). addr s \<le> 9000 \<longrightarrow> addr s \<le> addr (slabs ex_pool3 ! ?r))
        else ?r = length (slabs ex_pool3)"
    by (rule findSlabByAddr_greatest [OF s])
  then have "?r < length (slabs ex_pool3) \<and> addr (slabs ex_pool3 ! ?r) \<le> 9000 \<and>
      (\<forall>s\<in>set (slabs ex_pool3). addr s \<le> 9000 \<longrightarrow> addr s \<le> addr (slabs ex_pool3 ! ?r))"
    unfolding if_P [OF e] .
  with s show ?thesis unfolding list_all_iff by blast
qed

section \<open>Deleting a slab\<close>

text \<open>
  C8, as stated, fails: an address that no slab owns but that is not below every base
  address is looked up as the slab with the greatest base address below it. In the pool
  with one slab at 4096 (18 bytes long), \<open>deleteSlab\<close> at 5000 finds index 0, removes
  that slab and returns without an error.
\<close>

theorem deleteSlab_unowned_counterexample:
  "length (slabs ex_pool1) = 1 \<and> \<not> owns (slabs ex_pool1 ! 0) 5000 \<and>
   findSlabByAddr ex_pool1 5000 = 0 \<and>
   findSlabByAddr ex_pool1 5000 \<noteq> length (slabs ex_pool1) \<and>
   \<not> isl (deleteSlab munmap_ok ex_pool1 5000) \<and>
   fst (projr (deleteSlab munmap_ok ex_pool1 5000)) = None \<and>
   length (slabs (snd (projr (deleteSlab munmap_ok ex_pool1 5000)))) = 0"
  by code_simp

text \<open>
  C8, amended. \<open>deleteSlab\<close> with an address below the base address of every slab (any
  address, on the empty pool) is not answered with an error value: the lookup gives the
  length of the slab list, and indexing the list there panics.
\<close>

theorem deleteSlab_below_all_panics:
  assumes "\<forall>s\<in>set (slabs p). a < addr s"
  shows "findSlabByAddr p a = length (slabs p) \<and> deleteSlab munmap p a = Inl IndexOutOfRange"
  using findSlabByAddr_below [OF assms] deleteSlab_missing [of p a munmap] by simp

theorem deleteSlab_below_all_panics_witness:
  "list_all (\<lambda>s. 100 < addr s) (slabs ex_pool3) \<and>
   findSlabByAddr ex_pool3 100 = length (slabs ex_pool3) \<and>
   deleteSlab munmap_ok ex_pool3 100 = Inl IndexOutOfRange"
proof -
  have b: "list_all (\<lambda>s. 100 < addr s) (slabs ex_pool3)" by code_simp
  then have "\<forall>s\<in>set (slabs ex_pool3). 100 < addr s" unfolding list_all_iff .
  from deleteSlab_below_all_panics [OF this, of munmap_ok] b show ?thesis
    by (rule conjI [rotated])
qed

text \<open>
  C9. On a sorted pool, \<open>deleteSlab\<close> at the base address of the slab at index \<open>i\<close>
  returns with the slab list cut down to the slabs before and after \<open>i\<close>, in their
  order, whatever the release answers; the error of a failed release is returned next
  to this pool, and no remaining slab has the deleted slab's address.
\<close>

theorem deleteSlab_unlinks:
  assumes s: "sorted_desc (slabs p)" and i: "i < length (slabs p)"
  shows "deleteSlab munmap p (addr (slabs p ! i)) =
           Inr (map_option Errno (munmap (addr (slabs p ! i)) (getTotalLength (slabs p ! i))),
                p\<lparr>slabs := take i (slabs p) @ drop (Suc i) (slabs p)\<rparr>) \<and>
         addr (slabs p ! i) \<notin> addr ` set (take i (slabs p) @ drop (Suc i) (slabs p))"
proof -
  have f: "findSlabByAddr p (addr (slabs p ! i)) = i"
    by (rule findSlabByAddr_own [OF s i])
  have d: "deleteSlab munmap p (addr (slabs p ! i)) =
           Inr (map_option Errno (munmap (addr (slabs p ! i)) (getTotalLength (slabs p ! i))),
                p\<lparr>slabs := take i (slabs p) @ drop (Suc i) (slabs p)\<rparr>)"
    using deleteSlab_found [of p "addr (slabs p ! i)" munmap] i by (simp add: f)
  have t1: "addr x \<noteq> addr (slabs p ! i)" if "x \<in> set (take i (slabs p))" for x
  proof -
    from that obtain j where "j < i" "j < length (slabs p)" "x = slabs p ! j"
      by (auto simp: in_set_conv_nth)
    with sorted_desc_nth [OF s, of j i] i show ?thesis by auto
  qed
  have t2: "addr x \<noteq> addr (slabs p ! i)" if "x \<in> set (drop (Suc i) (slabs p))" for x
  proof -
    from that obtain k where k: "k < length (drop (Suc i) (slabs p))"
        "drop (Suc i) (slabs p) ! k = x"
      unfolding in_set_conv_nth by blast
    have l: "Suc i + k < length (slabs p)" using k(1) by simp
    then have "x = slabs p ! (Suc i + k)" using k(2) by simp
    with sorted_desc_nth [OF s, of i "Suc i + k"] l show ?thesis by simp
  qed
  have "addr (slabs p ! i) \<notin> addr ` set (take i (slabs p) @ drop (Suc i) (slabs p))"
  proof
    assume "addr (slabs p ! i) \<in> addr ` set (take i (slabs p) @ drop (Suc i) (slabs p))"
    then obtain x where "x \<in> set (take i (slabs p)) \<or> x \<in> set (drop (Suc i) (slabs p))"
        "addr (slabs p ! i) = addr x"
      by auto
    with t1 [of x] t2 [of x] show False by auto
  qed
  with d show ?thesis by simp
qed

theorem deleteSlab_unlinks_witness:
  "sorted_desc (slabs ex_pool3) \<and> 1 < length (slabs ex_pool3) \<and>
   deleteSlab munmap_fail ex_pool3 (addr (slabs ex_pool3 ! 1)) =
     Inr (Some (Errno 22),
          ex_pool3\<lparr>slabs := take 1 (slabs ex_pool3) @ drop (Suc 1) (slabs ex_pool3)\<rparr>) \<and>
   addr (slabs ex_pool3 ! 1) \<notin>
     addr ` set (take 1 (slabs ex_pool3) @ drop (Suc 1) (slabs ex_pool3))"
proof -
  have s: "sorted_desc (slabs ex_pool3)" by code_simp
  have l: "1 < length (slabs ex_pool3)" by code_simp
  from deleteSlab_unlinks [OF s l, of munmap_fail] s l show ?thesis
    by (simp add: munmap_fail_def)
qed

section \<open>Adding an object\<close>

lemma addObj_addr: "addr (snd (addObj s obj)) = addr s"
  by (simp add: addObj_def addr_def split: option.splits)

lemma addObj_fail: "\<not> snd (fst (addObj s obj)) \<Longrightarrow> addObj s obj = ((0, False), s)"
  by (simp add: addObj_def split: option.splits)

lemma addObj_ok:
  "snd (fst (addObj s obj)) \<Longrightarrow>
   addObj s obj = ((fst (fst (addObj s obj)), True), snd (addObj s obj))"
  by (cases "addObj s obj") auto

lemma addObj_cases:
  obtains (full) "addObj s obj = ((0, False), s)"
  | (free) a s' where "addObj s obj = ((a, True), s')" "addr s' = addr s"
proof (cases "snd (fst (addObj s obj))")
  case False
  then show ?thesis using addObj_fail full by blast
next
  case True
  then have "addObj s obj = ((fst (fst (addObj s obj)), True), snd (addObj s obj))"
    by (rule addObj_ok)
  then show ?thesis using free addObj_addr by blast
qed

lemma addLoop_addrs: "map addr (snd (addLoop xs obj)) = map addr xs"
proof (induction xs)
  case Nil
  show ?case by simp
next
  case (Cons s xs)
  show ?case
  proof (cases rule: addObj_cases [of s obj])
    case full
    with Cons show ?thesis by (cases "addLoop xs obj") simp
  next
    case (free a s')
    then show ?thesis by simp
  qed
qed

lemma addLoop_all_full:
  "(\<forall>s\<in>set xs. \<not> snd (fst (addObj s obj))) \<Longrightarrow> addLoop xs obj = (None, xs)"
proof (induction xs)
  case Nil
  show ?case by simp
next
  case (Cons s xs)
  then have "addObj s obj = ((0, False), s)" by (simp add: addObj_fail)
  with Cons show ?case by simp
qed

lemma addLoop_None:
  "fst (addLoop xs obj) = None \<Longrightarrow> addLoop xs obj = (None, xs) \<and> (\<forall>s\<in>set xs. \<not> snd (fst (addObj s obj)))"
proof (induction xs)
  case Nil
  show ?case by simp
next
  case (Cons s xs)
  show ?case
  proof (cases rule: addObj_cases [of s obj])
    case full
    with Cons show ?thesis by (cases "addLoop xs obj") simp
  next
    case (free a s')
    with Cons.prems show ?thesis by simp
  qed
qed

lemma addLoop_first_fit:
  "i < length xs \<Longrightarrow> snd (fst (addObj (xs ! i) obj)) \<Longrightarrow>
   (\<forall>j<i. \<not> snd (fst (addObj (xs ! j) obj))) \<Longrightarrow>
   addLoop xs obj = (Some (fst (fst (addObj (xs ! i) obj))), xs[i := snd (addObj (xs ! i) obj)])"
proof (induction xs arbitrary: i)
  case Nil
  then show ?case by simp
next
  case (Cons s xs)
  show ?case
  proof (cases i)
    case 0
    with Cons.prems have "snd (fst (addObj s obj))" by simp
    then obtain a s' where "addObj s obj = ((a, True), s')"
      using addObj_ok by blast
    with 0 show ?thesis by simp
  next
    case (Suc k)
    with Cons.prems have "\<not> snd (fst (addObj s obj))" by auto
    then have f: "addObj s obj = ((0, False), s)" by (rule addObj_fail)
    have pre: "\<forall>j<k. \<not> snd (fst (addObj (xs ! j) obj))"
    proof (intro allI impI)
      fix j assume "j < k"
      then have "Suc j < i" using Suc by simp
      with Cons.prems(3) have "\<not> snd (fst (addObj ((s # xs) ! Suc j) obj))" by blast
      then show "\<not> snd (fst (addObj (xs ! j) obj))" by simp
    qed
    have "addLoop xs obj = (Some (fst (fst (addObj (xs ! k) obj))), xs[k := snd (addObj (xs ! k) obj)])"
      using Cons.IH [of k] Cons.prems(1,2) Suc pre by simp
    with f Suc show ?thesis by simp
  qed
qed

lemma addSlab_fails: "addSlab hdr (Inl e) p = (Inl (Errno e), p)"
  by (simp add: addSlab_def newSlab_def)

lemma addSlab_maps:
  "addSlab hdr (Inr a) p =
     (Inr (sort_Search (length (slabs p)) (\<lambda>i. addr (slabs p ! i) < a)),
      p\<lparr>slabs := take (sort_Search (length (slabs p)) (\<lambda>i. addr (slabs p ! i) < a)) (slabs p) @
                  \<lparr>base = a, slabObjSize = objSize p, slabObjsPerSlab = objsPerSlab p,
                    dataOff = hdr, bits = (\<lambda>_. False), mem = (\<lambda>_. 0)\<rparr> #
                  drop (sort_Search (length (slabs p)) (\<lambda>i. addr (slabs p ! i) < a)) (slabs p)\<rparr>)"
  using insert_by_copy [OF sort_Search_le, where xs = "slabs p" and z = zeroSlab
      and f1 = "\<lambda>i. addr (slabs p ! i) < a"]
  by (simp add: addSlab_def newSlab_def Let_def addr_def)

lemma addSlab_inserts:
  "addSlab hdr (Inr a) p =
     (Inr (insertPos (slabs p) a),
      p\<lparr>slabs := take (insertPos (slabs p) a) (slabs p) @ freshSlab hdr a p #
                  drop (insertPos (slabs p) a) (slabs p)\<rparr>)"
  by (simp add: addSlab_maps insertPos_def freshSlab_def)

lemma insertPos_le: "insertPos xs a \<le> length xs"
  by (simp add: insertPos_def sort_Search_le)

lemma insertPos_split:
  assumes "sorted_desc xs"
  shows "(\<forall>k. k < insertPos xs a \<longrightarrow> a \<le> addr (xs ! k)) \<and>
         (\<forall>k. insertPos xs a \<le> k \<and> k < length xs \<longrightarrow> addr (xs ! k) < a)"
proof -
  have "(\<forall>k. k < insertPos xs a \<longrightarrow> \<not> addr (xs ! k) < a) \<and>
        (\<forall>k. insertPos xs a \<le> k \<and> k < length xs \<longrightarrow> addr (xs ! k) < a)"
    unfolding insertPos_def
  proof (rule sort_Search_split)
    fix i j
    assume "i \<le> j" "j < length xs" "addr (xs ! i) < a"
    with sorted_desc_nth_le [OF assms, of i j] show "addr (xs ! j) < a" by simp
  qed
  then show ?thesis by (simp add: not_less)
qed

lemma add_into_existing:
  assumes "addLoop (slabs p) obj = (Some objAddr, ss)"
  shows "add hdr mm p obj = ((objAddr, 0, None), p\<lparr>slabs := ss\<rparr>)"
  using assms by (simp add: add_def)

lemma add_all_full_fails:
  assumes "addLoop (slabs p) obj = (None, slabs p)"
  shows "add hdr (Inl e) p obj = ((0, 0, Some (Errno e)), p)"
  using assms by (simp add: add_def addSlab_fails)

lemma add_all_full_maps:
  assumes "addLoop (slabs p) obj = (None, slabs p)"
  shows "add hdr (Inr a) p obj =
     ((if snd (fst (addObj (freshSlab hdr a p) obj))
       then (fst (fst (addObj (freshSlab hdr a p) obj)), a, None)
       else (0, 0, Some (Errorf ''Add: Failed adding object to new slab''))),
      p\<lparr>slabs := take (insertPos (slabs p) a) (slabs p) @
                  snd (addObj (freshSlab hdr a p) obj) #
                  drop (insertPos (slabs p) a) (slabs p)\<rparr>)"
proof -
  let ?k = "insertPos (slabs p) a"
  let ?n = "freshSlab hdr a p"
  have k: "?k \<le> length (slabs p)" by (rule insertPos_le)
  have nth: "(take ?k (slabs p) @ ?n # drop ?k (slabs p)) ! ?k = ?n"
    using k by (simp add: nth_append)
  have upd: "(take ?k (slabs p) @ ?n # drop ?k (slabs p))[?k := s'] =
             take ?k (slabs p) @ s' # drop ?k (slabs p)" for s'
    using k by (simp add: list_update_append)
  have a: "addr (snd (addObj ?n obj)) = a"
    by (simp add: addObj_addr) (simp add: addr_def freshSlab_def)
  obtain oa ok n' where r: "addObj ?n obj = ((oa, ok), n')"
    by (metis prod.collapse)
  show ?thesis
    using assms a by (simp add: add_def addSlab_inserts nth upd r)
qed

text \<open>
  C10. When the mapping call fails and \<open>add\<close> returns an error, the call returns
  \<open>(0, 0, error)\<close> with the error of the mapping call, and the pool is the pool from
  before the call.
\<close>

theorem add_mmap_failure_atomic:
  assumes "snd (snd (fst (add hdr (Inl e) p obj))) \<noteq> None"
  shows "add hdr (Inl e) p obj = ((0, 0, Some (Errno e)), p)"
proof (cases "fst (addLoop (slabs p) obj)")
  case None
  then have "addLoop (slabs p) obj = (None, slabs p)" using addLoop_None by blast
  then show ?thesis by (rule add_all_full_fails)
next
  case (Some objAddr)
  then have "addLoop (slabs p) obj = (Some objAddr, snd (addLoop (slabs p) obj))"
    by (metis prod.collapse)
  from add_into_existing [OF this, of hdr "Inl e"] assms show ?thesis by simp
qed

theorem add_mmap_failure_atomic_witness:
  "snd (snd (fst (add 16 (Inl 12) ex_pool1 [3, 4]))) \<noteq> None \<and>
   add 16 (Inl 12) ex_pool1 [3, 4] = ((0, 0, Some (Errno 12)), ex_pool1)"
proof -
  have h: "snd (snd (fst (add 16 (Inl 12) ex_pool1 [3, 4]))) \<noteq> None" by code_simp
  from add_mmap_failure_atomic [OF h] h show ?thesis by (rule conjI [rotated])
qed

section \<open>The sorted order is kept\<close>

lemma sorted_desc_remove: 
  assumes "sorted_desc xs"
  shows "sorted_desc (take i xs @ drop (Suc i) xs)"
proof -
  let ?ys = "map addr xs"
  let ?P = "\<lambda>a b :: uintptr. b < a"
  have s: "sorted_wrt ?P (take i ?ys @ drop i ?ys)"
    using assms by (simp add: sorted_desc_def)
  then have c: "\<forall>x\<in>set (take i ?ys). \<forall>y\<in>set (drop i ?ys). y < x"
    unfolding sorted_wrt_append by blast
  have sub: "set (drop (Suc i) ?ys) \<subseteq> set (drop i ?ys)"
    by (rule set_drop_subset_set_drop) simp
  have "sorted_wrt ?P (take i ?ys)" "sorted_wrt ?P (drop (Suc i) ?ys)"
    using assms by (simp_all add: sorted_desc_def sorted_wrt_take sorted_wrt_drop)
  with c sub have "sorted_wrt ?P (take i ?ys @ drop (Suc i) ?ys)"
    unfolding sorted_wrt_append by blast
  then show ?thesis by (simp add: sorted_desc_def take_map drop_map)
qed

lemma sorted_desc_insert:
  assumes s: "sorted_desc xs" and fresh: "addr n \<notin> addr ` set xs"
  shows "sorted_desc (take (insertPos xs (addr n)) xs @ n # drop (insertPos xs (addr n)) xs)"
proof -
  let ?k = "insertPos xs (addr n)"
  let ?P = "\<lambda>a b :: uintptr. b < a"
  have sp: "\<forall>k. k < ?k \<longrightarrow> addr n \<le> addr (xs ! k)"
       "\<forall>k. ?k \<le> k \<and> k < length xs \<longrightarrow> addr (xs ! k) < addr n"
    using insertPos_split [OF s, of "addr n"] by simp_all
  have k: "?k \<le> length xs" by (rule insertPos_le)
  have before: "addr n < addr x" if "x \<in> set (take ?k xs)" for x
  proof -
    from that obtain j where j: "j < ?k" "j < length xs" "x = xs ! j"
      by (auto simp: in_set_conv_nth)
    then have "addr n \<le> addr x" using sp(1) by simp
    moreover have "addr x \<in> addr ` set xs" using j by simp
    ultimately show ?thesis using fresh by (metis order_le_imp_less_or_eq)
  qed
  have after: "addr x < addr n" if "x \<in> set (drop ?k xs)" for x
  proof -
    from that obtain j where j: "j < length (drop ?k xs)" "drop ?k xs ! j = x"
      unfolding in_set_conv_nth by blast
    then have "?k + j < length xs" "x = xs ! (?k + j)" by simp_all
    then show ?thesis using sp(2) by simp
  qed
  have cross: "addr y < addr x" if "x \<in> set (take ?k xs)" "y \<in> set (drop ?k xs)" for x y
    using before [OF that(1)] after [OF that(2)] by simp
  have t: "sorted_wrt ?P (map addr (take ?k xs))" "sorted_wrt ?P (map addr (drop ?k xs))"
    using s unfolding sorted_desc_def take_map [symmetric] drop_map [symmetric]
    by (simp_all add: sorted_wrt_take sorted_wrt_drop)
  show ?thesis
    unfolding sorted_desc_def using t before after cross
    by (auto simp: sorted_wrt_append)
qed

lemma sorted_desc_same_addrs: "map addr ys = map addr xs \<Longrightarrow> sorted_desc ys = sorted_desc xs"
  by (simp add: sorted_desc_def)

lemma addSlab_sorted:
  assumes s: "sorted_desc (slabs p)" and fresh: "\<forall>a. mm = Inr a \<longrightarrow> a \<notin> addr ` set (slabs p)"
  shows "sorted_desc (slabs (snd (addSlab hdr mm p)))"
proof (cases mm)
  case (Inl e)
  with s show ?thesis by (simp add: addSlab_fails)
next
  case (Inr a)
  have an: "addr (freshSlab hdr a p) = a" by (simp add: addr_def freshSlab_def)
  with fresh Inr have "addr (freshSlab hdr a p) \<notin> addr ` set (slabs p)" by simp
  from sorted_desc_insert [OF s this] Inr show ?thesis
    by (simp add: addSlab_inserts an)
qed

lemma add_sorted:
  assumes s: "sorted_desc (slabs p)" and fresh: "\<forall>a. mm = Inr a \<longrightarrow> a \<notin> addr ` set (slabs p)"
  shows "sorted_desc (slabs (snd (add hdr mm p obj)))"
proof (cases "fst (addLoop (slabs p) obj)")
  case (Some objAddr)
  then have e: "addLoop (slabs p) obj = (Some objAddr, snd (addLoop (slabs p) obj))"
    by (metis prod.collapse)
  have "sorted_desc (snd (addLoop (slabs p) obj))"
    using sorted_desc_same_addrs [OF addLoop_addrs] s by simp
  then show ?thesis by (simp add: add_into_existing [OF e])
next
  case None
  then have e: "addLoop (slabs p) obj = (None, slabs p)" using addLoop_None by blast
  show ?thesis
  proof (cases mm)
    case (Inl e')
    with s show ?thesis by (simp add: add_all_full_fails [OF e])
  next
    case (Inr a)
    let ?n = "snd (addObj (freshSlab hdr a p) obj)"
    have an: "addr ?n = a" by (simp add: addObj_addr) (simp add: addr_def freshSlab_def)
    with fresh Inr have "addr ?n \<notin> addr ` set (slabs p)" by simp
    from sorted_desc_insert [OF s this] Inr show ?thesis
      by (simp add: add_all_full_maps [OF e] an)
  qed
qed

lemma deleteSlab_sorted:
  assumes s: "sorted_desc (slabs p)" and d: "deleteSlab munmap p slabAddr = Inr (e, p')"
  shows "sorted_desc (slabs p')"
proof (cases "findSlabByAddr p slabAddr < length (slabs p)")
  case True
  from deleteSlab_found [OF True, of munmap] d
  have "slabs p' = take (findSlabByAddr p slabAddr) (slabs p) @
                   drop (Suc (findSlabByAddr p slabAddr)) (slabs p)"
    by auto
  then show ?thesis using sorted_desc_remove [OF s] by simp
next
  case False
  then have "deleteSlab munmap p slabAddr = Inl IndexOutOfRange"
    using deleteSlab_missing [of p slabAddr munmap] by simp
  with d show ?thesis by simp
qed

text \<open>
  C1. When the slabs of a pool are sorted by strictly descending base address and the
  mapping call does not answer with the base address of a slab the pool already holds,
  the slabs are sorted the same way after \<open>addSlab\<close>, after \<open>add\<close>, and after every
  \<open>deleteSlab\<close> that returns.
\<close>

theorem slabs_stay_sorted:
  assumes "sorted_desc (slabs p)" and "\<forall>a. mm = Inr a \<longrightarrow> a \<notin> addr ` set (slabs p)"
  shows "sorted_desc (slabs (snd (addSlab hdr mm p))) \<and>
         sorted_desc (slabs (snd (add hdr mm p obj))) \<and>
         (\<forall>e p'. deleteSlab munmap p slabAddr = Inr (e, p') \<longrightarrow> sorted_desc (slabs p'))"
  using addSlab_sorted [OF assms] add_sorted [OF assms] deleteSlab_sorted [OF assms(1)]
  by blast

theorem slabs_stay_sorted_witness:
  "sorted_desc (slabs ex_pool3) \<and>
   sorted_desc (slabs (snd (addSlab 16 (Inr 10000) ex_pool3))) \<and>
   sorted_desc (slabs (snd (add 16 (Inr 10000) ex_pool3 [7, 8]))) \<and>
   \<not> isl (deleteSlab munmap_ok ex_pool3 8192) \<and>
   sorted_desc (slabs (snd (projr (deleteSlab munmap_ok ex_pool3 8192))))"
proof -
  have s: "sorted_desc (slabs ex_pool3)" by code_simp
  have f: "\<forall>a. (Inr 10000 :: errno + uintptr) = Inr a \<longrightarrow> a \<notin> addr ` set (slabs ex_pool3)"
  proof (intro allI impI)
    fix a :: uintptr
    assume "(Inr 10000 :: errno + uintptr) = Inr a"
    then have "a = 10000" by simp
    moreover have "10000 \<notin> addr ` set (slabs ex_pool3)" by code_simp
    ultimately show "a \<notin> addr ` set (slabs ex_pool3)" by simp
  qed
  have r: "\<not> isl (deleteSlab munmap_ok ex_pool3 8192)" by code_simp
  then have "deleteSlab munmap_ok ex_pool3 8192 =
      Inr (fst (projr (deleteSlab munmap_ok ex_pool3 8192)),
           snd (projr (deleteSlab munmap_ok ex_pool3 8192)))"
    by (cases "deleteSlab munmap_ok ex_pool3 8192") auto
  with slabs_stay_sorted [OF s f, of 16 "[7, 8]" munmap_ok 8192] s r show ?thesis
    by blast
qed

section \<open>add against its specification\<close>

lemma firstFit_Some:
  assumes "firstFit xs obj = Some i"
  shows "i < length xs \<and> snd (fst (addObj (xs ! i) obj)) \<and>
         (\<forall>j<i. \<not> snd (fst (addObj (xs ! j) obj)))"
proof -
  from assms obtain k where k: "k < length [0..<length xs]"
      "snd (fst (addObj (xs ! ([0..<length xs] ! k)) obj))" "i = [0..<length xs] ! k"
      "\<forall>j<k. \<not> snd (fst (addObj (xs ! ([0..<length xs] ! j)) obj))"
    unfolding firstFit_def find_Some_iff by blast
  then have "i = k" "k < length xs" by simp_all
  with k(2,4) show ?thesis by simp
qed

lemma firstFit_None:
  assumes "firstFit xs obj = None"
  shows "\<forall>s\<in>set xs. \<not> snd (fst (addObj s obj))"
proof
  fix s assume "s \<in> set xs"
  then obtain i where "i < length xs" "xs ! i = s" by (auto simp: in_set_conv_nth)
  with assms show "\<not> snd (fst (addObj s obj))"
    unfolding firstFit_def find_None_iff by auto
qed

lemma insertSorted_by_search:
  assumes s: "sorted_desc xs"
  shows "take (insertPos xs (addr n)) xs @ n # drop (insertPos xs (addr n)) xs = insertSorted n xs"
proof -
  let ?k = "insertPos xs (addr n)"
  let ?P = "\<lambda>s. addr n \<le> addr s"
  have sp: "\<forall>k. k < ?k \<longrightarrow> addr n \<le> addr (xs ! k)"
       "\<forall>k. ?k \<le> k \<and> k < length xs \<longrightarrow> addr (xs ! k) < addr n"
    using insertPos_split [OF s, of "addr n"] by simp_all
  have k: "?k \<le> length xs" by (rule insertPos_le)
  have t: "takeWhile ?P xs = take ?k xs"
  proof (rule takeWhile_eq_take_P_nth)
    fix i assume "i < ?k" "i < length xs"
    then show "addr n \<le> addr (xs ! i)" using sp(1) by simp
  next
    assume "?k < length xs"
    then have "addr (xs ! ?k) < addr n" using sp(2) by simp
    then show "\<not> addr n \<le> addr (xs ! ?k)" by simp
  qed
  have "dropWhile ?P xs = drop (length (takeWhile ?P xs)) xs"
    by (rule dropWhile_eq_drop)
  then have d: "dropWhile ?P xs = drop ?k xs" using k by (simp add: t)
  show ?thesis by (simp add: insertSorted_def t d)
qed

text \<open>
  C3. On a pool with sorted slabs, \<open>add\<close> does what the specification says: first fit in
  list order with 0 as the slab address; a new slab, inserted in sorted position, only
  when no slab accepts the object, with its base address as the slab address; and an
  error built by \<^verbatim>\<open>fmt.Errorf\<close>, which is no error number of the mapping call, when
  the new slab does not accept the object.
\<close>

theorem add_first_fit:
  assumes s: "sorted_desc (slabs p)"
  shows "add hdr mm p obj = add_spec hdr mm p obj \<and>
         (\<forall>e. Errorf ''Add: Failed adding object to new slab'' \<noteq> Errno e)"
proof -
  have "add hdr mm p obj = add_spec hdr mm p obj"
  proof (cases "firstFit (slabs p) obj")
    case (Some i)
    from firstFit_Some [OF Some]
    have "addLoop (slabs p) obj =
            (Some (fst (fst (addObj (slabs p ! i) obj))),
             (slabs p)[i := snd (addObj (slabs p ! i) obj)])"
      using addLoop_first_fit [of i "slabs p" obj] by blast
    from add_into_existing [OF this] Some show ?thesis by (simp add: add_spec_def)
  next
    case None
    have e: "addLoop (slabs p) obj = (None, slabs p)"
      by (rule addLoop_all_full [OF firstFit_None [OF None]])
    show ?thesis
    proof (cases mm)
      case (Inl e')
      with None show ?thesis by (simp add: add_all_full_fails [OF e] add_spec_def)
    next
      case (Inr a)
      let ?n = "snd (addObj (freshSlab hdr a p) obj)"
      have an: "addr ?n = a" by (simp add: addObj_addr) (simp add: addr_def freshSlab_def)
      have "take (insertPos (slabs p) a) (slabs p) @ ?n # drop (insertPos (slabs p) a) (slabs p)
            = insertSorted ?n (slabs p)"
        using insertSorted_by_search [OF s, of ?n] by (simp add: an)
      with None Inr show ?thesis
        by (simp add: add_all_full_maps [OF e] add_spec_def Let_def)
    qed
  qed
  then show ?thesis by simp
qed

theorem add_first_fit_witness:
  "sorted_desc (slabs ex_pool3) \<and>
   add 16 (Inr 10000) ex_pool3 [7, 8] = add_spec 16 (Inr 10000) ex_pool3 [7, 8] \<and>
   fst (add 16 (Inr 10000) ex_pool3 [7, 8]) = (10016, 10000, None) \<and>
   map addr (slabs (snd (add 16 (Inr 10000) ex_pool3 [7, 8]))) = [12288, 10000, 8192, 4096]"
proof -
  have s: "sorted_desc (slabs ex_pool3)" by code_simp
  have a: "add 16 (Inr 10000) ex_pool3 [7, 8] = add_spec 16 (Inr 10000) ex_pool3 [7, 8]"
    using add_first_fit [OF s] by blast
  have "fst (add_spec 16 (Inr 10000) ex_pool3 [7, 8]) = (10016, 10000, None)"
    by code_simp
  moreover have "map addr (slabs (snd (add_spec 16 (Inr 10000) ex_pool3 [7, 8])))
                 = [12288, 10000, 8192, 4096]"
    by code_simp
  ultimately show ?thesis using s a by simp
qed

section \<open>Searching for an object\<close>

lemma cmpLoop_from:
  "length obj = n \<Longrightarrow> length bytes = n \<Longrightarrow> k \<le> n \<Longrightarrow>
   cmpLoop obj bytes [k..<n] = Inr (drop k obj = drop k bytes)"
proof (induction "n - k" arbitrary: k)
  case 0
  then show ?case by simp
next
  case (Suc d)
  then have kn: "k < n" by simp
  have u: "[k..<n] = k # [Suc k..<n]" using kn by (rule upt_conv_Cons)
  have o: "drop k obj = obj ! k # drop (Suc k) obj"
    using kn Suc.prems(1) by (simp add: Cons_nth_drop_Suc)
  have b: "drop k bytes = bytes ! k # drop (Suc k) bytes"
    using kn Suc.prems(2) by (simp add: Cons_nth_drop_Suc)
  have "cmpLoop obj bytes [Suc k..<n] = Inr (drop (Suc k) obj = drop (Suc k) bytes)"
    using Suc.hyps(1) [of "Suc k"] Suc.hyps(2) Suc.prems kn by simp
  then show ?case using kn Suc.prems(1,2) unfolding u o b by simp
qed

lemma cmpLoop_equal:
  "length obj = n \<Longrightarrow> length bytes = n \<Longrightarrow> cmpLoop obj bytes [0..<n] = Inr (obj = bytes)"
  using cmpLoop_from [of obj n bytes 0] by simp

lemma length_getObjByIdx: "length (getObjByIdx s i) = unat (slabObjSize s)"
  by (simp add: getObjByIdx_def)

lemma searchSlab_first_match:
  assumes "slabObjSize s = objSize p" "length bytes = unat (objSize p)" "objSize p \<noteq> 0"
  shows "searchSlab p s bytes is =
           Inr (case slabMatches p bytes s is of [] \<Rightarrow> None | a # _ \<Rightarrow> Some a)"
proof (induction "is")
  case Nil
  show ?case by (simp add: slabMatches_def)
next
  case (Cons i "is")
  have l: "length (getObjByIdx s i) = unat (objSize p)"
    using assms(1) by (simp add: length_getObjByIdx)
  have c: "cmpLoop (getObjByIdx s i) bytes [0..<unat (objSize p)] = Inr (getObjByIdx s i = bytes)"
    using cmpLoop_equal [OF l assms(2)] .
  have nz: "\<not> length (getObjByIdx s i) \<le> 0"
    using assms(3) l by (simp add: unat_eq_zero)
  show ?case
  proof (cases "bitTest s i \<and> getObjByIdx s i = bytes")
    case True
    then show ?thesis using c nz by (simp add: slabMatches_def Let_def)
  next
    case False
    then have "slabMatches p bytes s (i # is) = slabMatches p bytes s is"
      by (auto simp: slabMatches_def)
    moreover have "searchSlab p s bytes (i # is) = searchSlab p s bytes is"
      using False c by (auto simp: Let_def)
    ultimately show ?thesis using Cons by simp
  qed
qed

lemma searchSlabs_first_match:
  assumes "list_all (\<lambda>s. slabObjSize s = objSize p) ss" "length bytes = unat (objSize p)"
    "objSize p \<noteq> 0"
  shows "searchSlabs p ss bytes =
           Inr (case concat (map (\<lambda>s. slabMatches p bytes s [0..<unat (objsPerSlab p)]) ss) of
                  [] \<Rightarrow> (0, False) | a # _ \<Rightarrow> (a, True))"
  using assms(1)
proof (induction ss)
  case Nil
  show ?case by simp
next
  case (Cons s ss)
  then have sz: "slabObjSize s = objSize p" and rest: "list_all (\<lambda>s. slabObjSize s = objSize p) ss"
    by simp_all
  note f = searchSlab_first_match [OF sz assms(2,3), of "[0..<unat (objsPerSlab p)]"]
  show ?case
  proof (cases "slabMatches p bytes s [0..<unat (objsPerSlab p)]")
    case Nil
    with f Cons.IH [OF rest] show ?thesis by simp
  next
    case (Cons a as)
    with f show ?thesis by simp
  qed
qed

text \<open>
  C4. \<open>search\<close> returns \<open>(0, false)\<close> when the length of the bytes differs from the pool's
  object size, before it looks at a slab. Otherwise, on a pool with a nonzero object size
  whose slabs were made with it, it returns the address of the first occupied slot with
  equal content, slabs in list order and slots by ascending index, with \<open>true\<close>, and
  \<open>(0, false)\<close> when there is none.
\<close>

theorem search_first_match:
  assumes "length bytes \<noteq> unat (objSize p) \<or> (slabs_sized p \<and> objSize p \<noteq> 0)"
  shows "search p bytes = Inr (search_spec p bytes)"
proof (cases "length bytes = unat (objSize p)")
  case False
  then show ?thesis by (simp add: search_def search_spec_def)
next
  case True
  with assms have "list_all (\<lambda>s. slabObjSize s = objSize p) (slabs p)" "objSize p \<noteq> 0"
    by (simp_all add: slabs_sized_def)
  from searchSlabs_first_match [OF this(1) True this(2)] True show ?thesis
    by (simp add: search_def search_spec_def matches_def)
qed

theorem search_first_match_witness:
  "slabs_sized ex_pool3 \<and> objSize ex_pool3 \<noteq> 0 \<and>
   search ex_pool3 [5, 6] = Inr (search_spec ex_pool3 [5, 6]) \<and>
   search_spec ex_pool3 [5, 6] = (8208, True) \<and>
   search ex_pool3 [5] = Inr (search_spec ex_pool3 [5]) \<and>
   search_spec ex_pool3 [5] = (0, False)"
proof -
  have w: "slabs_sized ex_pool3 \<and> objSize ex_pool3 \<noteq> 0" by code_simp
  then have h: "length bytes \<noteq> unat (objSize ex_pool3) \<or> (slabs_sized ex_pool3 \<and> objSize ex_pool3 \<noteq> 0)"
    for bytes :: "byte list"
    by simp
  have "search_spec ex_pool3 [5, 6] = (8208, True)" by code_simp
  moreover have "search_spec ex_pool3 [5] = (0, False)" by code_simp
  ultimately show ?thesis
    using w search_first_match [OF h, of "[5, 6]"] search_first_match [OF h, of "[5]"] by simp
qed

section \<open>The capacity of a slab\<close>

lemma addObj_next_free:
  assumes f: "filledTo s k" and k: "k < unat (slabObjsPerSlab s)"
  shows "addObj s obj =
           ((slotAddr s k, True), s\<lparr>bits := (bits s)(k := True), mem := writeSlot s k obj\<rparr>)"
proof -
  let ?n = "unat (slabObjsPerSlab s)"
  have "find (\<lambda>i. \<not> bits s i) [0..<?n] = Some k"
    unfolding find_Some_iff
  proof (intro exI [of _ k] conjI allI impI)
    show "k < length [0..<?n]" using k by simp
    show "\<not> bits s ([0..<?n] ! k)" using f k by (simp add: filledTo_def)
    show "k = [0..<?n] ! k" using k by simp
    fix j assume "j < k"
    then show "\<not> \<not> bits s ([0..<?n] ! j)" using f k by (simp add: filledTo_def)
  qed
  then show ?thesis by (simp add: addObj_def)
qed

lemma filledTo_next:
  assumes f: "filledTo s k"
  shows "filledTo (s\<lparr>bits := (bits s)(k := True), mem := m\<rparr>) (Suc k)"
  using f by (auto simp: filledTo_def less_Suc_eq)

lemma addObj_when_full:
  assumes f: "filledTo s k" and k: "unat (slabObjsPerSlab s) \<le> k"
  shows "addObj s obj = ((0, False), s)"
proof -
  have "find (\<lambda>i. \<not> bits s i) [0..<unat (slabObjsPerSlab s)] = None"
    unfolding find_None_iff using f k by (auto simp: filledTo_def)
  then show ?thesis by (simp add: addObj_def)
qed

lemma filledTo_fresh: "filledTo (freshSlab hdr a p) 0"
  by (simp add: filledTo_def freshSlab_def)

lemma addAll_append:
  "addAll hdr p (xs @ ys) =
     (case addAll hdr p xs of
        (rs, p') \<Rightarrow> (case addAll hdr p' ys of (rs', p'') \<Rightarrow> (rs @ rs', p'')))"
  by (induction xs arbitrary: p) (auto split: prod.splits)

text \<open>Calls that fit into the one slab of the pool go there and report no new slab.\<close>

lemma addAll_into_one_slab:
  "slabs p = [s] \<Longrightarrow> filledTo s k \<Longrightarrow> k + length calls \<le> unat (slabObjsPerSlab s) \<Longrightarrow>
   \<exists>rs s'. addAll hdr p calls = (rs, p\<lparr>slabs := [s']\<rparr>) \<and>
     map (\<lambda>r. fst (snd r)) rs = replicate (length calls) 0 \<and>
     list_all (\<lambda>r. snd (snd r) = None) rs \<and>
     filledTo s' (k + length calls) \<and> slabObjsPerSlab s' = slabObjsPerSlab s"
proof (induction calls arbitrary: p s k)
  case Nil
  then show ?case by (intro exI [of _ "[]"] exI [of _ s]) simp
next
  case (Cons c calls)
  obtain mm obj where c: "c = (mm, obj)" by (cases c)
  let ?s1 = "s\<lparr>bits := (bits s)(k := True), mem := writeSlot s k obj\<rparr>"
  have k: "k < unat (slabObjsPerSlab s)" using Cons.prems(3) by simp
  have ao: "addObj s obj = ((slotAddr s k, True), ?s1)"
    by (rule addObj_next_free [OF Cons.prems(2) k])
  have "addLoop (slabs p) obj = (Some (slotAddr s k), [?s1])"
    using Cons.prems(1) ao by simp
  then have a: "add hdr mm p obj = ((slotAddr s k, 0, None), p\<lparr>slabs := [?s1]\<rparr>)"
    by (rule add_into_existing)
  have f1: "filledTo ?s1 (Suc k)" by (rule filledTo_next [OF Cons.prems(2)])
  have "\<exists>rs s'. addAll hdr (p\<lparr>slabs := [?s1]\<rparr>) calls = (rs, p\<lparr>slabs := [?s1]\<rparr>\<lparr>slabs := [s']\<rparr>) \<and>
     map (\<lambda>r. fst (snd r)) rs = replicate (length calls) 0 \<and>
     list_all (\<lambda>r. snd (snd r) = None) rs \<and>
     filledTo s' (Suc k + length calls) \<and> slabObjsPerSlab s' = slabObjsPerSlab ?s1"
    by (rule Cons.IH) (use f1 Cons.prems(3) in simp_all)
  then obtain rs s' where r: "addAll hdr (p\<lparr>slabs := [?s1]\<rparr>) calls = (rs, p\<lparr>slabs := [s']\<rparr>)"
      "map (\<lambda>r. fst (snd r)) rs = replicate (length calls) 0"
      "list_all (\<lambda>r. snd (snd r) = None) rs"
      "filledTo s' (Suc k + length calls)" "slabObjsPerSlab s' = slabObjsPerSlab s"
    by auto
  show ?case
    by (intro exI [of _ "(slotAddr s k, 0, None) # rs"] exI [of _ s'])
       (use a r c in simp)
qed

text \<open>
  A new slab of a pool made for at least one object per slab accepts the object.
\<close>

lemma add_maps_new_slab:
  assumes e: "addLoop (slabs p) obj = (None, slabs p)" and c: "0 < unat (objsPerSlab p)"
  shows "add hdr (Inr a) p obj =
     ((slotAddr (freshSlab hdr a p) 0, a, None),
      p\<lparr>slabs := take (insertPos (slabs p) a) (slabs p) @
                  (freshSlab hdr a p)\<lparr>bits := (bits (freshSlab hdr a p))(0 := True),
                                       mem := writeSlot (freshSlab hdr a p) 0 obj\<rparr> #
                  drop (insertPos (slabs p) a) (slabs p)\<rparr>)"
proof -
  have "0 < unat (slabObjsPerSlab (freshSlab hdr a p))" using c by (simp add: freshSlab_def)
  from addObj_next_free [OF filledTo_fresh this, of obj] show ?thesis
    by (simp add: add_all_full_maps [OF e])
qed

text \<open>
  C7. On a pool made for \<open>C\<close> objects per slab, \<open>C\<close> at least 1, the first \<open>add\<close> maps
  a slab and returns its address, the adds 2 to \<open>C\<close> return 0 as the slab address, and
  add \<open>C + 1\<close> maps the next slab and returns its address; none of them fails. The
  mapping calls of the first and the last add answer with the nonzero addresses \<open>a1\<close>
  and \<open>a2\<close>.
\<close>

theorem capacity_before_new_slab:
  assumes C: "0 < unat C" and mid: "length mid = unat C - 1" and nz: "a1 \<noteq> 0 \<and> a2 \<noteq> 0"
  shows "map (\<lambda>r. fst (snd r))
           (fst (addAll hdr (NewSlabPool osz C) ((Inr a1, obj1) # mid @ [(Inr a2, obj2)])))
         = a1 # replicate (unat C - 1) 0 @ [a2] \<and>
         list_all (\<lambda>r. snd (snd r) = None)
           (fst (addAll hdr (NewSlabPool osz C) ((Inr a1, obj1) # mid @ [(Inr a2, obj2)]))) \<and>
         a1 \<noteq> 0 \<and> a2 \<noteq> 0"
proof -
  define p0 where "p0 = NewSlabPool osz C"
  define n where "n = freshSlab hdr a1 p0"
  define n1 where "n1 = n\<lparr>bits := (bits n)(0 := True), mem := writeSlot n 0 obj1\<rparr>"
  define p1 where "p1 = p0\<lparr>slabs := [n1]\<rparr>"
  have p0: "slabs p0 = []" "objsPerSlab p0 = C" by (simp_all add: p0_def NewSlabPool_def)
  have "addLoop (slabs p0) obj1 = (None, slabs p0)" by (simp add: p0)
  from add_maps_new_slab [OF this, of hdr a1] C
  have a1: "add hdr (Inr a1) p0 obj1 = ((slotAddr n 0, a1, None), p1)"
    by (simp add: p0 p1_def n1_def n_def)
  have f1: "filledTo n1 1"
    using filledTo_next [OF filledTo_fresh [of hdr a1 p0]] by (simp add: n1_def n_def)
  have c1: "slabObjsPerSlab n1 = C" by (simp add: n1_def n_def freshSlab_def p0)
  have s1: "slabs p1 = [n1]" by (simp add: p1_def)
  have "\<exists>rs s'. addAll hdr p1 mid = (rs, p1\<lparr>slabs := [s']\<rparr>) \<and>
     map (\<lambda>r. fst (snd r)) rs = replicate (length mid) 0 \<and>
     list_all (\<lambda>r. snd (snd r) = None) rs \<and>
     filledTo s' (1 + length mid) \<and> slabObjsPerSlab s' = slabObjsPerSlab n1"
    by (rule addAll_into_one_slab [OF s1 f1]) (use C mid c1 in simp)
  then obtain rs s' where m: "addAll hdr p1 mid = (rs, p1\<lparr>slabs := [s']\<rparr>)"
      "map (\<lambda>r. fst (snd r)) rs = replicate (length mid) 0"
      "list_all (\<lambda>r. snd (snd r) = None) rs"
      "filledTo s' (1 + length mid)" "slabObjsPerSlab s' = C"
    using c1 by auto
  define p2 where "p2 = p1\<lparr>slabs := [s']\<rparr>"
  have p2: "slabs p2 = [s']" "objsPerSlab p2 = C" by (simp_all add: p2_def p1_def p0)
  have "addObj s' obj2 = ((0, False), s')"
    by (rule addObj_when_full [OF m(4)]) (use C mid m(5) in simp)
  then have "addLoop (slabs p2) obj2 = (None, slabs p2)" by (simp add: p2)
  from add_maps_new_slab [OF this, of hdr a2] C
  obtain p3 where a2: "add hdr (Inr a2) p2 obj2 = ((slotAddr (freshSlab hdr a2 p2) 0, a2, None), p3)"
    by (simp add: p2)
  have "addAll hdr p0 ((Inr a1, obj1) # mid @ [(Inr a2, obj2)]) =
          ((slotAddr n 0, a1, None) # rs @ [(slotAddr (freshSlab hdr a2 p2) 0, a2, None)], p3)"
    using m(1) a2 by (simp add: a1 addAll_append p2_def [symmetric])
  then show ?thesis using m(2,3) mid nz by (simp add: p0_def)
qed

theorem capacity_before_new_slab_witness:
  "0 < unat (2 :: 64 word) \<and>
   map (\<lambda>r. fst (snd r))
     (fst (addAll 16 (NewSlabPool 8 2)
        ((Inr 4096, [65, 65, 65, 65, 65, 65, 65, 65]) #
         [(Inl 12, [66, 66, 66, 66, 66, 66, 66, 66])] @
         [(Inr 8192, [67, 67, 67, 67, 67, 67, 67, 67])])))
     = [4096, 0, 8192]"
proof -
  have c: "0 < unat (2 :: 64 word)" by simp
  have m: "length [(Inl 12 :: errno + uintptr, [66, 66, 66, 66, 66, 66, 66, 66 :: byte])]
           = unat (2 :: 64 word) - 1"
    by simp
  have n: "(4096 :: uintptr) \<noteq> 0 \<and> (8192 :: uintptr) \<noteq> 0" by simp
  from capacity_before_new_slab [OF c m n, of 16 8 "[65, 65, 65, 65, 65, 65, 65, 65]"
      "[67, 67, 67, 67, 67, 67, 67, 67]"] c
  show ?thesis by simp
qed

section \<open>Batched search and targets of the wrong length\<close>

text \<open>
  C5 fails on the code. \<open>search\<close> gives up on a target whose length is not the object
  size; \<open>searchBatched\<close> has no such check and compares the first object-size bytes. In
  the pool of two-byte objects that holds \<open>[1, 2]\<close>, the one-byte target \<open>[1]\<close> is
  indexed at 1 by the goroutine of the slab, which panics, under every schedule.
\<close>

theorem searchBatched_short_target_panics:
  "length ([1] :: byte list) \<noteq> unat (objSize ex_pool1) \<and>
   search ex_pool1 [1] = Inr (0, False) \<and>
   searchBatched sched ex_pool1 [[1]] = Inl IndexOutOfRange"
proof -
  have "slabTasks ex_pool1 [[1]] (slabs ex_pool1) = Inl IndexOutOfRange" by code_simp
  then have "searchBatched sched ex_pool1 [[1]] = Inl IndexOutOfRange"
    by (simp add: searchBatched_def)
  moreover have "length ([1] :: byte list) \<noteq> unat (objSize ex_pool1)" by code_simp
  moreover have "search ex_pool1 [1] = Inr (0, False)" by code_simp
  ultimately show ?thesis by simp
qed

text \<open>
  C6 fails on the code, by the same missing check. In the same pool the three-byte target
  \<open>[1, 2, 3]\<close> is not found by \<open>search\<close>, and \<open>searchBatched\<close> reports it at the
  address of the stored \<open>[1, 2]\<close>.
\<close>

theorem search_searchBatched_disagree:
  "search ex_pool1 [1, 2, 3] = Inr (0, False) \<and>
   searchBatched [0] ex_pool1 [[1, 2, 3]] = Inr (Some [4112])"
  by code_simp

section \<open>Batched search for one target of the object size\<close>

text \<open>
  With a target of the pool's object size the comparison stays inside both slices, and
  the goroutine of a slab sends the addresses of the slab's matching slots, in slot order.
\<close>

lemma matchTargets_single:
  "length storedObj = n \<Longrightarrow> length t = n \<Longrightarrow>
   matchTargets n storedObj a k [t] = Inr (if storedObj = t then [(k, a)] else [])"
  by (simp add: cmpLoop_equal)

lemma slabTask_single:
  assumes "slabObjSize s = objSize p" "length t = unat (objSize p)"
  shows "slabTask p [t] s js = Inr (map (Pair 0) (slabMatches p t s js))"
proof (induction js)
  case Nil
  show ?case by (simp add: slabMatches_def)
next
  case (Cons j js)
  have l: "length (getObjByIdx s j) = unat (objSize p)"
    using assms(1) by (simp add: length_getObjByIdx)
  have m: "matchTargets (unat (objSize p)) (getObjByIdx s j) (objAddrFromObj s j) 0 [t] =
           Inr (if getObjByIdx s j = t then [(0, slotAddr s j)] else [])"
    using matchTargets_single [OF l assms(2)] by (simp add: objAddrFromObj_def)
  show ?case
  proof (cases "bitTest s j")
    case False
    with Cons show ?thesis by (simp add: slabMatches_def)
  next
    case True
    with Cons m show ?thesis by (simp add: slabMatches_def del: matchTargets.simps)
  qed
qed

lemma slabTasks_single:
  assumes "length t = unat (objSize p)"
  shows "list_all (\<lambda>s. slabObjSize s = objSize p) ss \<Longrightarrow>
         slabTasks p [t] ss =
           Inr (map (\<lambda>s. map (Pair 0) (slabMatches p t s [0..<unat (objsPerSlab p)])) ss)"
proof (induction ss)
  case Nil
  show ?case by simp
next
  case (Cons s ss)
  then have "slabObjSize s = objSize p" by simp
  from slabTask_single [OF this assms] Cons show ?case by simp
qed

text \<open>
  What the collector leaves in the result list, whatever the schedule: at an index that
  some goroutine sends a result for, the address of one of these results; elsewhere the
  value from before.
\<close>

lemma concat_all_empty: "list_all (\<lambda>q. q = []) qs \<Longrightarrow> concat qs = []"
  by (induction qs) auto

lemma concat_split_at:
  assumes "g < length qs"
  shows "concat qs = concat (take g qs) @ qs ! g @ concat (drop (Suc g) qs)"
proof -
  have "concat qs = concat (take g qs @ qs ! g # drop (Suc g) qs)"
    by (rule arg_cong [OF id_take_nth_drop [OF assms]])
  then show ?thesis by simp
qed

lemma concat_update:
  assumes "g < length qs"
  shows "concat (qs[g := q]) = concat (take g qs) @ q @ concat (drop (Suc g) qs)"
  by (simp add: upd_conv_take_nth_drop [OF assms])

lemma set_concat_take_one:
  assumes "g < length qs" "qs ! g = e # q"
  shows "set (concat qs) = insert e (set (concat (qs[g := q])))"
proof -
  have "set (concat qs) = set (concat (take g qs) @ (e # q) @ concat (drop (Suc g) qs))"
    using concat_split_at [OF assms(1)] assms(2) by (rule_tac arg_cong [where f = set]) simp
  moreover have "set (concat (qs[g := q])) = set (concat (take g qs) @ q @ concat (drop (Suc g) qs))"
    by (rule arg_cong [OF concat_update [OF assms(1)]])
  ultimately show ?thesis by (simp only: set_append set_simps) blast
qed

lemma length_concat_take_one:
  assumes "g < length qs" "qs ! g = e # q"
  shows "length (concat qs) = Suc (length (concat (qs[g := q])))"
proof -
  have "length (concat qs) = length (concat (take g qs) @ (e # q) @ concat (drop (Suc g) qs))"
    using concat_split_at [OF assms(1)] assms(2) by (rule_tac arg_cong [where f = length]) simp
  moreover have "length (concat (qs[g := q])) =
      length (concat (take g qs) @ q @ concat (drop (Suc g) qs))"
    by (rule arg_cong [OF concat_update [OF assms(1)]])
  ultimately show ?thesis by (simp only: length_append list.size)
qed

lemma collect_result:
  "collect sched qs res = Some r \<Longrightarrow>
   length r = length res \<and>
   (\<forall>k<length res. if \<exists>a. (k, a) \<in> set (concat qs) then (k, r ! k) \<in> set (concat qs)
                     else r ! k = res ! k)"
proof (induction sched arbitrary: qs res)
  case Nil
  then have "list_all (\<lambda>q. q = []) qs" "r = res" by (simp_all split: if_splits)
  then show ?case by (simp add: concat_all_empty)
next
  case (Cons g sched)
  from Cons.prems have g: "g < length qs" by (simp split: if_splits)
  from Cons.prems g obtain e q where q: "qs ! g = e # q"
      and c: "collect sched (qs[g := q]) (res[fst e := snd e]) = Some r"
    by (cases "qs ! g") auto
  define E where "E = set (concat qs)"
  define E' where "E' = set (concat (qs[g := q]))"
  have E: "E = insert e E'"
    unfolding E_def E'_def by (rule set_concat_take_one [OF g q])
  have "length r = length (res[fst e := snd e]) \<and>
        (\<forall>k<length (res[fst e := snd e]). if \<exists>a. (k, a) \<in> E' then (k, r ! k) \<in> E'
                             else r ! k = (res[fst e := snd e]) ! k)"
    unfolding E'_def by (rule Cons.IH [OF c])
  then have len: "length r = length res"
    and ih: "\<forall>k<length res. if \<exists>a. (k, a) \<in> E' then (k, r ! k) \<in> E'
                             else r ! k = (res[fst e := snd e]) ! k"
    by simp_all
  have "if \<exists>a. (k, a) \<in> E then (k, r ! k) \<in> E else r ! k = res ! k" if k: "k < length res" for k
  proof (cases "\<exists>a. (k, a) \<in> E'")
    case True
    with ih k have "(k, r ! k) \<in> E'" by simp
    then show ?thesis using E by auto
  next
    case False
    with ih k have rk: "r ! k = (res[fst e := snd e]) ! k" by simp
    show ?thesis
    proof (cases "fst e = k")
      case True
      then have "r ! k = snd e" using rk k by simp
      then have "(k, r ! k) = e" using True by (cases e) simp
      then show ?thesis using E by auto
    next
      case ne: False
      then have "r ! k = res ! k" using rk by simp
      moreover have "\<not> (\<exists>a. (k, a) \<in> E)" using False ne E by auto
      ultimately show ?thesis by simp
    qed
  qed
  with len show ?case unfolding E_def by blast
qed

text \<open>Some schedule receives every result: the collector comes to an end.\<close>

lemma collect_some_schedule: "\<exists>sched r. collect sched qs res = Some r"
proof (induction n \<equiv> "length (concat qs)" arbitrary: qs res)
  case 0
  then have "length (concat qs) = 0" by (rule sym)
  then have "concat qs = []" by (simp only: length_0_conv)
  then have "list_all (\<lambda>q. q = []) qs" by (simp add: list_all_iff)
  then have "collect [] qs res = Some res" by simp
  then show ?case by blast
next
  case (Suc n)
  have "concat qs \<noteq> []"
  proof
    assume "concat qs = []"
    then have "length (concat qs) = 0" by (simp only: list.size)
    with Suc.hyps(2) show False by linarith
  qed
  then have "\<exists>q\<in>set qs. q \<noteq> []" by simp
  then obtain g where g: "g < length qs" "qs ! g \<noteq> []"
    by (metis in_set_conv_nth)
  then obtain e q where q: "qs ! g = e # q" by (cases "qs ! g") auto
  have "n = length (concat (qs[g := q]))"
    using length_concat_take_one [OF g(1) q] Suc.hyps(2) by linarith
  from Suc.hyps(1) [OF this, of "res[fst e := snd e]"]
  obtain sched r where "collect sched (qs[g := q]) (res[fst e := snd e]) = Some r" by blast
  then have "collect (g # sched) qs res = Some r" using g(1) q by simp
  then show ?case by blast
qed

lemma search_sized_target:
  assumes sz: "slabs_sized p" and nz: "objSize p \<noteq> 0" and len: "length t = unat (objSize p)"
  shows "search p t = Inr (case matches p t of [] \<Rightarrow> (0, False) | a # _ \<Rightarrow> (a, True))"
proof -
  have "list_all (\<lambda>s. slabObjSize s = objSize p) (slabs p)"
    using sz by (simp add: slabs_sized_def)
  from searchSlabs_first_match [OF this len nz] len show ?thesis
    by (simp add: search_def matches_def)
qed

text \<open>
  On a target of the object size the two searches agree: the one entry of the batched
  search is 0 when \<open>search\<close> finds nothing, and is the address of a matching slot when
  \<open>search\<close> finds one (the same address when only one slot matches).
\<close>

lemma searchBatched_sized_target:
  assumes sz: "slabs_sized p" and nz: "objSize p \<noteq> 0" and len: "length t = unat (objSize p)"
    and run: "searchBatched sched p [t] = Inr (Some r)"
  shows "\<exists>a. r = [a] \<and>
           (if matches p t = [] then a = 0 \<and> search p t = Inr (0, False)
            else a \<in> set (matches p t) \<and> search p t = Inr (hd (matches p t), True))"
proof -
  define qs where
    "qs = map (\<lambda>s. map (Pair (0::nat)) (slabMatches p t s [0..<unat (objsPerSlab p)])) (slabs p)"
  define E where "E = set (concat qs)"
  define ms where "ms = matches p t"
  have tasks: "slabTasks p [t] (slabs p) = Inr qs"
    using slabTasks_single [OF len] sz by (simp add: slabs_sized_def qs_def)
  with run have c: "collect sched qs [0] = Some r" by (simp add: searchBatched_def)
  have E: "E = Pair 0 ` set ms"
    unfolding E_def qs_def ms_def matches_def by auto
  have cr: "length r = length [0 :: uintptr] \<and>
      (\<forall>k<length [0 :: uintptr]. if \<exists>a. (k, a) \<in> E then (k, r ! k) \<in> E else r ! k = [0] ! k)"
    unfolding E_def by (rule collect_result [OF c])
  then have l: "length r = 1" by simp
  then obtain a where r: "r = [a]" by (cases r) auto
  from cr have k: "if \<exists>b. (0, b) \<in> E then (0, a) \<in> E else a = 0"
    by (auto simp: r split: if_splits)
  have s: "search p t = Inr (case ms of [] \<Rightarrow> (0, False) | b # _ \<Rightarrow> (b, True))"
    unfolding ms_def by (rule search_sized_target [OF sz nz len])
  have "if ms = [] then a = 0 \<and> search p t = Inr (0, False)
        else a \<in> set ms \<and> search p t = Inr (hd ms, True)"
  proof (cases ms)
    case Nil
    then have "\<not> (\<exists>b. (0, b) \<in> E)" by (simp add: E)
    with k have "a = 0" by simp
    with Nil s show ?thesis by simp
  next
    case (Cons m ms')
    then have "\<exists>b. (0, b) \<in> E" unfolding E by auto
    with k have "(0, a) \<in> E" by simp
    then have "a \<in> set ms" unfolding E by auto
    with Cons s show ?thesis by simp
  qed
  with r show ?thesis unfolding ms_def by blast
qed

lemma searchBatched_sized_target_returns:
  assumes "slabs_sized p" and "length t = unat (objSize p)"
  shows "\<exists>sched r. searchBatched sched p [t] = Inr (Some r)"
proof -
  obtain qs where "slabTasks p [t] (slabs p) = Inr qs"
    using slabTasks_single [OF assms(2)] assms(1) by (simp add: slabs_sized_def)
  moreover obtain sched r where "collect sched qs [0] = Some r"
    using collect_some_schedule by blast
  ultimately have "searchBatched sched p [t] = Inr (Some r)" by (simp add: searchBatched_def)
  then show ?thesis by blast
qed

end
